theory Spec2Isabelle
  imports Complex_Main "HOL-Library.Sublist"
begin

section \<open>Python values and primitives used by the loaders\<close>

text \<open>
  Both loaders (\<^verbatim>\<open>load_tweets.py\<close>, the row strategy, and
  \<^verbatim>\<open>load_tweets_batch.py\<close>, the batch strategy) work on the value that
  \<^verbatim>\<open>json.loads\<close> returns for one line of input. Such a value is a tree of
  dicts, lists, strings, numbers, booleans and \<^verbatim>\<open>None\<close>.

  \<^item> A dict is the list of its items in insertion order (keys are distinct in a
    Python dict; lookups read the first item with the key).
  \<^item> A string is a list of 8-bit characters, standing for code points below 256.
  \<^item> An integer is unbounded; a float is the rational number it denotes (the
    non-finite floats are outside the model).
\<close>

datatype json =
    JNull
  | JBool bool
  | JInt int
  | JFloat rat
  | JStr string
  | JList "json list"
  | JDict "(string \<times> json) list"

text \<open>The exceptions the loaders can raise or catch.\<close>

datatype py_error =
  KeyError | TypeError | AttributeError | IndexError | ValueError | RecursionError

definition NUL :: char where
  "NUL = CHR 0x00"

text \<open>
  \<^verbatim>\<open>s.replace(old, new)\<close> for a pattern \<^verbatim>\<open>old\<close> of one character: every occurrence
  is replaced, left to right.
\<close>

definition str_replace_char :: "char \<Rightarrow> string \<Rightarrow> string \<Rightarrow> string" where
  "str_replace_char old new s = concat (map (\<lambda>c. if c = old then new else [c]) s)"

text \<open>
  A statement that may raise is a value of \<open>py_error + 'a\<close>; \<open>and_then\<close> runs the next
  statement on the result of the first unless that one raised. \<open>map_result\<close> is a
  comprehension whose element expression may raise.
\<close>

fun and_then :: "'e + 'a \<Rightarrow> ('a \<Rightarrow> 'e + 'b) \<Rightarrow> 'e + 'b" where
  "and_then (Inl e) f = Inl e"
| "and_then (Inr x) f = f x"

fun map_result :: "('a \<Rightarrow> 'e + 'b) \<Rightarrow> 'a list \<Rightarrow> 'e + 'b list" where
  "map_result f [] = Inr []"
| "map_result f (x # xs) =
     and_then (f x) (\<lambda>y. and_then (map_result f xs) (\<lambda>ys. Inr (y # ys)))"

section \<open>The sanitizer of the row strategy\<close>

text \<open>
  \<^verbatim>\<open>
  def remove_nulls(s):
      if s is None:
          return None
      else:
          return s.replace('\x00','')
  \<close>
  A value that is neither \<^verbatim>\<open>None\<close> nor a string has no \<^verbatim>\<open>replace\<close> method.
\<close>

fun remove_nulls :: "json \<Rightarrow> py_error + json" where
  "remove_nulls JNull = Inr JNull"
| "remove_nulls (JStr s) = Inr (JStr (str_replace_char NUL [] s))"
| "remove_nulls v = Inl AttributeError"

text \<open>
  \<^verbatim>\<open>
  def clean_dict(d):
      if isinstance(d, dict):
          return {k: clean_dict(v) for k, v in d.items()}
      elif isinstance(d, list):
          return [clean_dict(item) for item in d]
      elif isinstance(d, str):
          return d.replace('\x00', '')
      else:
          return d
  \<close>
  The function calls itself once for every level of nesting, and the interpreter
  raises \<^verbatim>\<open>RecursionError\<close> when its stack is deeper than its recursion limit. The
  first argument is the number of nested calls of \<^verbatim>\<open>clean_dict\<close> for which the stack
  has room when the function is called; a dict or list comprehension stops at the
  first element whose call raises.
\<close>

primrec clean_dict :: "nat \<Rightarrow> json \<Rightarrow> py_error + json" where
  "clean_dict 0 d = Inl RecursionError"
| "clean_dict (Suc n) d =
     (case d of
        JDict kvs \<Rightarrow>
          and_then (map_result (\<lambda>kv. and_then (clean_dict n (snd kv)) (\<lambda>v. Inr (fst kv, v))) kvs)
            (\<lambda>items. Inr (JDict items))
      | JList xs \<Rightarrow> and_then (map_result (clean_dict n) xs) (\<lambda>items. Inr (JList items))
      | JStr s \<Rightarrow> Inr (JStr (str_replace_char NUL [] s))
      | _ \<Rightarrow> Inr d)"

text \<open>
  Observations of a value, used to state what the sanitizer keeps and what it
  changes: the value with every string leaf emptied (its keys, its element order and
  counts, and its non-string leaves), the list of its string leaves in order, and the
  number of levels of its nesting (a scalar or a string has one level, a list or dict
  has one more than its deepest element).
\<close>

primrec skeleton :: "json \<Rightarrow> json" where
  "skeleton (JDict kvs) = JDict (map (map_prod id skeleton) kvs)"
| "skeleton (JList xs) = JList (map skeleton xs)"
| "skeleton (JStr s) = JStr []"
| "skeleton JNull = JNull"
| "skeleton (JBool b) = JBool b"
| "skeleton (JInt i) = JInt i"
| "skeleton (JFloat q) = JFloat q"

primrec str_leaves :: "json \<Rightarrow> string list" where
  "str_leaves (JDict kvs) = concat (map snd (map (map_prod id str_leaves) kvs))"
| "str_leaves (JList xs) = concat (map str_leaves xs)"
| "str_leaves (JStr s) = [s]"
| "str_leaves JNull = []"
| "str_leaves (JBool b) = []"
| "str_leaves (JInt i) = []"
| "str_leaves (JFloat q) = []"

primrec depth :: "json \<Rightarrow> nat" where
  "depth (JDict kvs) = Suc (foldr max (map snd (map (map_prod id depth) kvs)) 0)"
| "depth (JList xs) = Suc (foldr max (map depth xs) 0)"
| "depth (JStr s) = 1"
| "depth JNull = 1"
| "depth (JBool b) = 1"
| "depth (JInt i) = 1"
| "depth (JFloat q) = 1"

text \<open>
  The value with NUL deleted from every string leaf, by recursion on the value: what
  \<^verbatim>\<open>clean_dict\<close> returns when it returns (lemma \<open>clean_dict_depth\<close>).
\<close>

primrec without_nulls :: "json \<Rightarrow> json" where
  "without_nulls (JDict kvs) = JDict (map (map_prod id without_nulls) kvs)"
| "without_nulls (JList xs) = JList (map without_nulls xs)"
| "without_nulls (JStr s) = JStr (filter (\<lambda>c. c \<noteq> NUL) s)"
| "without_nulls JNull = JNull"
| "without_nulls (JBool b) = JBool b"
| "without_nulls (JInt i) = JInt i"
| "without_nulls (JFloat q) = JFloat q"

text \<open>A list nested in \<open>k\<close> lists: \<^verbatim>\<open>[]\<close>, \<^verbatim>\<open>[[]]\<close>, \<^verbatim>\<open>[[[]]]\<close> and so on.\<close>

definition nested_lists :: "nat \<Rightarrow> json" where
  "nested_lists k = ((\<lambda>v. JList [v]) ^^ k) (JList [])"

section \<open>Properties of the row strategy's sanitizer\<close>

lemma str_replace_char_delete:
  "str_replace_char c [] s = filter (\<lambda>x. x \<noteq> c) s"
  by (induction s) (simp_all add: str_replace_char_def)

lemma skeleton_without_nulls: "skeleton (without_nulls d) = skeleton d"
  by (induction d) (auto simp: map_prod_def split: prod.splits)

lemma str_leaves_without_nulls:
  "str_leaves (without_nulls d) = map (filter (\<lambda>c. c \<noteq> NUL)) (str_leaves d)"
proof (induction d)
  case (JList xs)
  then show ?case by (induction xs) simp_all
next
  case (JDict kvs)
  have "\<And>k v. (k, v) \<in> set kvs \<Longrightarrow>
      str_leaves (without_nulls v) = map (filter (\<lambda>c. c \<noteq> NUL)) (str_leaves v)"
    using JDict.IH by fastforce
  then have "map (\<lambda>kv. str_leaves (without_nulls (snd kv))) kvs
      = map (\<lambda>kv. map (filter (\<lambda>c. c \<noteq> NUL)) (str_leaves (snd kv))) kvs"
    by (intro map_cong) auto
  then show ?case
    by (simp add: map_concat comp_def cong: map_cong)
qed simp_all

lemma foldr_max_le: "foldr max xs (0::nat) \<le> n \<longleftrightarrow> (\<forall>x \<in> set xs. x \<le> n)"
  by (induction xs) auto

lemma map_result_cases:
  assumes "\<And>x. x \<in> set xs \<Longrightarrow> f x = (if P x then Inr (g x) else Inl e)"
  shows "map_result f xs = (if \<forall>x \<in> set xs. P x then Inr (map g xs) else Inl e)"
  using assms by (induction xs) auto

lemma clean_dict_depth:
  "clean_dict n d = (if depth d \<le> n then Inr (without_nulls d) else Inl RecursionError)"
proof (induction n arbitrary: d)
  case 0
  show ?case by (cases d) simp_all
next
  case (Suc n)
  show ?case
  proof (cases d)
    case (JList xs)
    have "map_result (clean_dict n) xs
        = (if \<forall>x \<in> set xs. depth x \<le> n then Inr (map without_nulls xs) else Inl RecursionError)"
      by (rule map_result_cases) (rule Suc.IH)
    then show ?thesis using JList by (simp add: foldr_max_le)
  next
    case (JDict kvs)
    have "map_result (\<lambda>kv. and_then (clean_dict n (snd kv)) (\<lambda>v. Inr (fst kv, v))) kvs
        = (if \<forall>kv \<in> set kvs. depth (snd kv) \<le> n
           then Inr (map (\<lambda>kv. (fst kv, without_nulls (snd kv))) kvs) else Inl RecursionError)"
      by (rule map_result_cases) (simp add: Suc.IH)
    moreover have "map (\<lambda>kv. (fst kv, without_nulls (snd kv))) kvs = map (map_prod id without_nulls) kvs"
      by (simp add: map_prod_def case_prod_beta)
    ultimately show ?thesis using JDict by (simp add: foldr_max_le)
  qed (simp_all add: str_replace_char_delete)
qed

lemma depth_nested_lists: "depth (nested_lists k) = Suc k"
  by (induction k) (simp_all add: nested_lists_def)

text \<open>
  Claim C7. For every nested value whose nesting fits the stack, \<open>clean_dict\<close>
  returns a value of the same structure (same keys, same element order and counts,
  non-string leaves unchanged) whose string leaves are the input's string leaves with
  every NUL removed: no output string contains NUL and none is longer than the input
  string it comes from. On a value nested more deeply than the stack has room for, it
  raises \<^verbatim>\<open>RecursionError\<close>. \<open>remove_nulls\<close> deletes the NULs of one string and passes
  \<^verbatim>\<open>None\<close> through.
\<close>

theorem clean_dict_sanitizes:
  "(depth d \<le> n \<longrightarrow>
      (\<exists>r. clean_dict n d = Inr r
         \<and> skeleton r = skeleton d
         \<and> str_leaves r = map (filter (\<lambda>c. c \<noteq> NUL)) (str_leaves d)
         \<and> (\<forall>s \<in> set (str_leaves r). NUL \<notin> set s)
         \<and> list_all2 (\<lambda>s t. length t \<le> length s) (str_leaves d) (str_leaves r)))
   \<and> (n < depth d \<longrightarrow> clean_dict n d = Inl RecursionError)
   \<and> remove_nulls (JStr s0) = Inr (JStr (filter (\<lambda>c. c \<noteq> NUL) s0))
   \<and> remove_nulls JNull = Inr JNull"
  by (simp add: clean_dict_depth skeleton_without_nulls str_leaves_without_nulls
      str_replace_char_delete list_all2_map2 list_all2_same)

theorem clean_dict_sanitizes_witness:
  "depth (JDict [(''text'', JStr [CHR ''a'', NUL, CHR ''b'']),
       (''ids'', JList [JInt 1, JStr [NUL]])]) = 3
   \<and> clean_dict 3 (JDict [(''text'', JStr [CHR ''a'', NUL, CHR ''b'']),
       (''ids'', JList [JInt 1, JStr [NUL]])])
     = Inr (JDict [(''text'', JStr ''ab''), (''ids'', JList [JInt 1, JStr ''''])])
   \<and> str_leaves (JDict [(''text'', JStr ''ab''), (''ids'', JList [JInt 1, JStr ''''])])
     = [''ab'', '''']
   \<and> NUL \<notin> set ''ab''
   \<and> clean_dict 2 (JDict [(''text'', JStr [CHR ''a'', NUL, CHR ''b'']),
       (''ids'', JList [JInt 1, JStr [NUL]])]) = Inl RecursionError"
  using clean_dict_sanitizes [of "JDict [(''text'', JStr [CHR ''a'', NUL, CHR ''b'']),
       (''ids'', JList [JInt 1, JStr [NUL]])]" 3]
    clean_dict_sanitizes [of "JDict [(''text'', JStr [CHR ''a'', NUL, CHR ''b'']),
       (''ids'', JList [JInt 1, JStr [NUL]])]" 2]
  by (simp add: NUL_def numeral_3_eq_3 numeral_2_eq_2 str_replace_char_def)

text \<open>
  The function does not succeed on every input: whatever the recursion limit, it
  raises on a list nested in as many lists as the limit allows calls (with the
  interpreter's default limit of 1000, on a list nested 1000 deep).
\<close>

theorem clean_dict_recursion_limit:
  "nested_lists 2 = JList [JList [JList []]]
   \<and> clean_dict 1000 (nested_lists 1000) = Inl RecursionError
   \<and> (\<forall>n. clean_dict n (nested_lists n) = Inl RecursionError)"
proof -
  have "nested_lists 2 = JList [JList [JList []]]"
    by (simp add: nested_lists_def numeral_2_eq_2)
  moreover have "clean_dict n (nested_lists n) = Inl RecursionError" for n
    by (simp add: clean_dict_depth depth_nested_lists)
  ultimately show ?thesis by blast
qed

section \<open>The sanitizer of the batch strategy\<close>

text \<open>
  The replacement text of the batch strategy's \<^verbatim>\<open>remove_nulls\<close>: the Python literal
  \<^verbatim>\<open>'\\x00'\<close> is the four characters backslash, \<^verbatim>\<open>x\<close>, \<^verbatim>\<open>0\<close>, \<^verbatim>\<open>0\<close>.
\<close>

definition ESC :: string where
  "ESC = [CHR 0x5C, CHR ''x'', CHR ''0'', CHR ''0'']"

text \<open>
  \<^verbatim>\<open>
  def remove_nulls(s):
      if s is None:
          return None
      else:
          return s.replace('\x00','\\x00')
  \<close>
  (\<^verbatim>\<open>load_tweets_batch.py\<close>; its doctests give \<^verbatim>\<open>'\\x00'\<close> for \<^verbatim>\<open>'\x00'\<close>.)
\<close>

fun remove_nulls_batch :: "json \<Rightarrow> py_error + json" where
  "remove_nulls_batch JNull = Inr JNull"
| "remove_nulls_batch (JStr s) = Inr (JStr (str_replace_char NUL ESC s))"
| "remove_nulls_batch v = Inl AttributeError"

text \<open>
  The reversal that the specification speaks of is not part of the source. Following the
  specification's words ("the escape sequence is reversed"), it replaces every
  occurrence of the escape sequence by NUL, leftmost first, as
  \<^verbatim>\<open>t.replace('\\x00', '\x00')\<close> does.
\<close>

fun unescape_nulls :: "string \<Rightarrow> string" where
  "unescape_nulls (a # b # c # d # rest) =
     (if [a, b, c, d] = ESC then NUL # unescape_nulls rest
      else a # unescape_nulls (b # c # d # rest))"
| "unescape_nulls s = s"

subsection \<open>Escaping and its reversal\<close>

lemma str_replace_char_Nil: "str_replace_char old new [] = []"
  by (simp add: str_replace_char_def)

lemma str_replace_char_Cons:
  "str_replace_char old new (c # s) =
     (if c = old then new else [c]) @ str_replace_char old new s"
  by (simp add: str_replace_char_def)

lemma unescape_ESC: "unescape_nulls (ESC @ t) = NUL # unescape_nulls t"
  by (simp add: ESC_def)

lemma prefix_ESC_Cons:
  "prefix ESC (c # u) \<longleftrightarrow> c = CHR 0x5C \<and> prefix [CHR ''x'', CHR ''0'', CHR ''0''] u"
  by (auto simp: ESC_def)

lemma unescape_no_prefix:
  assumes "\<not> prefix ESC (c # t)"
  shows "unescape_nulls (c # t) = c # unescape_nulls t"
proof (cases t)
  case Nil
  then show ?thesis by simp
next
  case t: (Cons b t1)
  show ?thesis
  proof (cases t1)
    case Nil
    with t show ?thesis by simp
  next
    case t1: (Cons c1 t2)
    show ?thesis
    proof (cases t2)
      case Nil
      with t t1 show ?thesis by simp
    next
      case (Cons d t3)
      with t t1 assms show ?thesis by (auto simp: ESC_def)
    qed
  qed
qed

text \<open>
  A character of the escaped text that is not a backslash is a character of the input:
  the inserted text starts with a backslash.
\<close>

lemma escaped_head:
  "str_replace_char NUL ESC t = a # r \<Longrightarrow> a \<noteq> CHR 0x5C \<Longrightarrow>
   \<exists>t'. t = a # t' \<and> r = str_replace_char NUL ESC t'"
  by (cases t) (auto simp: str_replace_char_Cons str_replace_char_Nil ESC_def split: if_splits)

lemma escaped_prefix_x00:
  assumes "prefix [CHR ''x'', CHR ''0'', CHR ''0''] (str_replace_char NUL ESC t)"
  shows "prefix [CHR ''x'', CHR ''0'', CHR ''0''] t"
proof -
  from assms obtain r
    where e: "str_replace_char NUL ESC t = CHR ''x'' # CHR ''0'' # CHR ''0'' # r"
    by (auto simp: prefix_def)
  from escaped_head [OF e] obtain t1 where t1: "t = CHR ''x'' # t1"
    and e1: "CHR ''0'' # CHR ''0'' # r = str_replace_char NUL ESC t1" by auto
  from escaped_head [OF e1 [symmetric]] obtain t2 where t2: "t1 = CHR ''0'' # t2"
    and e2: "CHR ''0'' # r = str_replace_char NUL ESC t2" by auto
  from escaped_head [OF e2 [symmetric]] obtain t3 where t3: "t2 = CHR ''0'' # t3" by auto
  show ?thesis by (simp add: t1 t2 t3)
qed

lemma unescape_escape:
  "\<not> sublist ESC s \<Longrightarrow> unescape_nulls (str_replace_char NUL ESC s) = s"
proof (induction s)
  case Nil
  then show ?case by (simp add: str_replace_char_Nil)
next
  case (Cons c t)
  from Cons.prems have nt: "\<not> sublist ESC t" and np: "\<not> prefix ESC (c # t)"
    by (auto simp: sublist_Cons_right)
  show ?case
  proof (cases "c = NUL")
    case True
    then show ?thesis
      using Cons.IH [OF nt] by (simp add: str_replace_char_Cons unescape_ESC)
  next
    case False
    have "\<not> prefix ESC (c # str_replace_char NUL ESC t)"
    proof
      assume "prefix ESC (c # str_replace_char NUL ESC t)"
      then have c: "c = CHR 0x5C"
        and "prefix [CHR ''x'', CHR ''0'', CHR ''0''] (str_replace_char NUL ESC t)"
        by (simp_all add: prefix_ESC_Cons)
      then have "prefix [CHR ''x'', CHR ''0'', CHR ''0''] t"
        by (simp add: escaped_prefix_x00)
      with c have "prefix ESC (c # t)" by (simp add: prefix_ESC_Cons)
      with np show False by simp
    qed
    then show ?thesis
      using False Cons.IH [OF nt] by (simp add: str_replace_char_Cons unescape_no_prefix)
  qed
qed

lemma NUL_notin_escaped: "NUL \<notin> set (str_replace_char NUL ESC s)"
  by (induction s) (auto simp: str_replace_char_Cons str_replace_char_Nil ESC_def NUL_def)

lemma length_escaped:
  "length (str_replace_char NUL ESC s) = length s + 3 * count_list s NUL"
  by (induction s) (auto simp: str_replace_char_Cons str_replace_char_Nil ESC_def)

text \<open>
  Claim C2, as the code has it. The batch sanitizer replaces each NUL by the visible
  escape sequence, which is four characters long (backslash, x, 0, 0), so the output
  has no NUL and is three characters longer per NUL; and reversing the escape sequence
  on the output gives back the input for every input that does not already contain the
  escape sequence as text.
\<close>

theorem remove_nulls_batch_escapes:
  "remove_nulls_batch (JStr s) = Inr (JStr (str_replace_char NUL ESC s))
   \<and> length ESC = 4
   \<and> NUL \<notin> set (str_replace_char NUL ESC s)
   \<and> length (str_replace_char NUL ESC s) = length s + 3 * count_list s NUL
   \<and> (\<not> sublist ESC s \<longrightarrow> unescape_nulls (str_replace_char NUL ESC s) = s)"
  by (simp add: NUL_notin_escaped length_escaped unescape_escape) (simp add: ESC_def)

theorem remove_nulls_batch_escapes_witness:
  "\<not> sublist ESC [CHR ''h'', NUL, CHR ''w'']
   \<and> remove_nulls_batch (JStr [CHR ''h'', NUL, CHR ''w''])
       = Inr (JStr [CHR ''h'', CHR 0x5C, CHR ''x'', CHR ''0'', CHR ''0'', CHR ''w''])
   \<and> unescape_nulls [CHR ''h'', CHR 0x5C, CHR ''x'', CHR ''0'', CHR ''0'', CHR ''w'']
       = [CHR ''h'', NUL, CHR ''w'']"
proof -
  have h: "\<not> sublist ESC [CHR ''h'', NUL, CHR ''w'']"
    by (simp add: ESC_def sublist_Cons_right)
  have e: "str_replace_char NUL ESC [CHR ''h'', NUL, CHR ''w'']
      = [CHR ''h'', CHR 0x5C, CHR ''x'', CHR ''0'', CHR ''0'', CHR ''w'']"
    by (simp add: str_replace_char_def ESC_def NUL_def)
  show ?thesis
    using h remove_nulls_batch_escapes [of "[CHR ''h'', NUL, CHR ''w'']"]
    by (simp only: e simp_thms)
qed

text \<open>
  The claim as stated fails: the escape sequence has four characters, not two, and the
  escaping is not invertible. The text of the escape sequence itself and the string of
  one NUL are escaped to the same output, and reversing the escape on the output of
  the former gives one NUL, not the input.
\<close>

theorem remove_nulls_batch_not_invertible:
  "remove_nulls_batch (JStr [NUL]) = Inr (JStr ESC)
   \<and> remove_nulls_batch (JStr ESC) = Inr (JStr ESC)
   \<and> length ESC = 4
   \<and> unescape_nulls ESC = [NUL]
   \<and> [NUL] \<noteq> ESC"
  by (simp add: str_replace_char_def ESC_def NUL_def)

section \<open>The batch assembler\<close>

text \<open>
  \<^verbatim>\<open>iterable[a:b]\<close> for \<open>0 \<le> a\<close> and \<open>0 \<le> b\<close>.
\<close>

definition slice :: "'a list \<Rightarrow> nat \<Rightarrow> nat \<Rightarrow> 'a list" where
  "slice xs a b = take (b - a) (drop a xs)"

text \<open>
  \<^verbatim>\<open>
  def batch(iterable, n=1):
      l = len(iterable)
      for ndx in range(0, l, n):
          yield iterable[ndx:min(ndx + n, l)]
  \<close>
  The loop over \<^verbatim>\<open>range(0, l, n)\<close> for a positive step is \<open>batch_loop\<close>, started at
  index 0. \<^verbatim>\<open>range\<close> raises \<^verbatim>\<open>ValueError\<close> for the step 0 and is empty for a
  negative step (\<open>l\<close> is not negative). The generator's values are collected in a list.
\<close>

function batch_loop :: "'a list \<Rightarrow> nat \<Rightarrow> nat \<Rightarrow> 'a list list" where
  "batch_loop iterable n ndx =
     (if 0 < n \<and> ndx < length iterable
      then slice iterable ndx (min (ndx + n) (length iterable))
           # batch_loop iterable n (ndx + n)
      else [])"
  by pat_completeness auto
termination
  by (relation "measure (\<lambda>(iterable, n, ndx). length iterable - ndx)") auto

declare batch_loop.simps [simp del]

definition batch :: "'a list \<Rightarrow> int \<Rightarrow> py_error + 'a list list" where
  "batch iterable n =
     (if n = 0 then Inl ValueError
      else if n < 0 then Inr []
      else Inr (batch_loop iterable (nat n) 0))"

subsection \<open>Partitioning\<close>

lemma batch_loop_step:
  "0 < n \<Longrightarrow> ndx < length xs \<Longrightarrow>
   batch_loop xs n ndx = take n (drop ndx xs) # batch_loop xs n (ndx + n)"
  by (subst batch_loop.simps) (simp add: slice_def min_def)

lemma batch_loop_stop: "\<not> (0 < n \<and> ndx < length xs) \<Longrightarrow> batch_loop xs n ndx = []"
  by (subst batch_loop.simps) simp

lemma concat_batch_loop: "0 < n \<Longrightarrow> concat (batch_loop xs n ndx) = drop ndx xs"
proof (induction xs n ndx rule: batch_loop.induct)
  case (1 xs n ndx)
  show ?case
  proof (cases "ndx < length xs")
    case True
    have "take n (drop ndx xs) @ drop (ndx + n) xs = drop ndx xs"
      by (metis append_take_drop_id drop_drop add.commute)
    then show ?thesis using True 1 by (simp add: batch_loop_step)
  next
    case False
    then show ?thesis by (simp add: batch_loop_stop)
  qed
qed

lemma ceil_div_step:
  fixes m n :: nat
  assumes "0 < n" "0 < m"
  shows "Suc ((m - n + n - 1) div n) = (m + n - 1) div n"
proof (cases "n \<le> m")
  case True
  then have "m - n + n - 1 + n = m + n - 1" using assms by simp
  then show ?thesis
    using assms by (metis div_add_self2 less_numeral_extra(3) Suc_eq_plus1)
next
  case False
  then have a: "m - n + n - 1 = n - 1" by simp
  have "(m + n - 1) div n = 1"
    using assms False by (intro div_nat_eqI) simp_all
  then show ?thesis using a assms by simp
qed

lemma length_batch_loop:
  "0 < n \<Longrightarrow> length (batch_loop xs n ndx) = (length xs - ndx + n - 1) div n"
proof (induction xs n ndx rule: batch_loop.induct)
  case (1 xs n ndx)
  show ?case
  proof (cases "ndx < length xs")
    case True
    have "length (batch_loop xs n ndx) = Suc ((length xs - ndx - n + n - 1) div n)"
      using True 1 by (simp add: batch_loop_step)
    also have "\<dots> = (length xs - ndx + n - 1) div n"
      using True 1(2) by (intro ceil_div_step) auto
    finally show ?thesis .
  next
    case False
    then show ?thesis using 1(2) by (simp add: batch_loop_stop)
  qed
qed

lemma sizes_batch_loop:
  "0 < n \<Longrightarrow> c \<in> set (batch_loop xs n ndx) \<Longrightarrow> 0 < length c \<and> length c \<le> n"
proof (induction xs n ndx rule: batch_loop.induct)
  case (1 xs n ndx)
  show ?case
  proof (cases "ndx < length xs")
    case True
    then show ?thesis using 1 by (auto simp: batch_loop_step)
  next
    case False
    then show ?thesis using 1 by (simp add: batch_loop_stop)
  qed
qed

lemma full_batch_loop:
  "0 < n \<Longrightarrow> c \<in> set (butlast (batch_loop xs n ndx)) \<Longrightarrow> length c = n"
proof (induction xs n ndx rule: batch_loop.induct)
  case (1 xs n ndx)
  show ?case
  proof (cases "ndx < length xs")
    case lt: True
    show ?thesis
    proof (cases "ndx + n < length xs")
      case True
      then show ?thesis using 1 lt by (auto simp: batch_loop_step split: if_splits)
    next
      case False
      then have "batch_loop xs n (ndx + n) = []" by (simp add: batch_loop_stop)
      then show ?thesis using 1 lt by (simp add: batch_loop_step)
    qed
  next
    case False
    then show ?thesis using 1 by (simp add: batch_loop_stop)
  qed
qed

lemma neg_div_ceil:
  fixes a b :: int
  assumes "0 < b"
  shows "- (- a div b) = (a + b - 1) div b"
proof -
  define q r where "q = a div b" and "r = a mod b"
  have a: "a = r + b * q" by (simp add: q_def r_def)
  have r: "0 \<le> r" "r < b" using assms by (simp_all add: r_def)
  have "a + b - 1 = (r + b - 1) + b * q" by (simp add: a)
  then have "(a + b - 1) div b = ((r + b - 1) + b * q) div b" by (rule arg_cong)
  also have "\<dots> = q + (r + b - 1) div b" using assms by simp
  finally have 1: "(a + b - 1) div b = q + (r + b - 1) div b" .
  have 2: "(r + b - 1) div b = (if r = 0 then 0 else 1)"
  proof (cases "r = 0")
    case True
    then show ?thesis using assms by simp
  next
    case False
    have "r + b - 1 = (r - 1) + b * 1" by simp
    then have "(r + b - 1) div b = ((r - 1) + b * 1) div b" by (rule arg_cong)
    also have "\<dots> = 1 + (r - 1) div b" using assms by (subst div_mult_self2) simp_all
    also have "(r - 1) div b = 0" using r False by simp
    finally show ?thesis using False by simp
  qed
  have 3: "- a div b = (if r = 0 then - q else - q - 1)"
    using assms by (simp add: zdiv_zminus1_eq_if q_def r_def)
  show ?thesis by (simp add: 1 2 3)
qed

lemma nat_ceil:
  fixes m k :: nat
  assumes "0 < k"
  shows "- (- int m div int k) = int ((m + k - 1) div k)"
proof -
  have "int ((m + k - 1) div k) = (int m + int k - 1) div int k"
    using assms by (simp add: zdiv_int)
  then show ?thesis using neg_div_ceil [of "int k" "int m"] assms by simp
qed

text \<open>
  Claim C9. For every finite sequence and every positive batch size \<open>n\<close>, \<open>batch\<close>
  yields exactly \<open>ceil(len / n)\<close> chunks, every chunk is non-empty and has at most
  \<open>n\<close> records, every chunk but the last has exactly \<open>n\<close>, and the chunks concatenated
  in order are the input.
\<close>

theorem batch_partitions:
  "0 < n \<Longrightarrow>
   (\<exists>cs. batch xs n = Inr cs
      \<and> int (length cs) = \<lceil>(of_nat (length xs) :: rat) / of_int n\<rceil>
      \<and> (\<forall>c \<in> set cs. 0 < length c \<and> int (length c) \<le> n)
      \<and> (\<forall>c \<in> set (butlast cs). int (length c) = n)
      \<and> concat cs = xs)"
proof -
  assume n: "0 < n"
  define k where "k = nat n"
  have k: "0 < k" "n = int k" using n by (simp_all add: k_def)
  have b: "batch xs n = Inr (batch_loop xs k 0)" using n by (simp add: batch_def k_def)
  have "\<lceil>(of_nat (length xs) :: rat) / of_int n\<rceil> = - (- int (length xs) div int k)"
    using ceiling_divide_eq_div [of "int (length xs)" "int k", where ?'a = rat] k by simp
  also have "\<dots> = int ((length xs + k - 1) div k)"
    using k by (simp add: nat_ceil)
  finally have c: "\<lceil>(of_nat (length xs) :: rat) / of_int n\<rceil>
      = int ((length xs + k - 1) div k)" .
  show ?thesis
    using b c k sizes_batch_loop [of k _ xs 0] full_batch_loop [of k _ xs 0]
      concat_batch_loop [of k xs 0] length_batch_loop [of k xs 0]
    by auto
qed

theorem batch_partitions_witness:
  "(0::int) < 2 \<and> batch [1, 2, 3, 4, 5 :: nat] 2 = Inr [[1, 2], [3, 4], [5]]
   \<and> map length [[1, 2], [3, 4], [5 :: nat]] = [2, 2, 1]
   \<and> batch [1, 2, 3, 4, 5, 6 :: nat] 3 = Inr [[1, 2, 3], [4, 5, 6]]
   \<and> map length [[1, 2, 3], [4, 5, 6 :: nat]] = [3, 3]
   \<and> concat [[1, 2], [3, 4], [5 :: nat]] = [1, 2, 3, 4, 5]"
  using batch_partitions [of 2 "[1, 2, 3, 4, 5 :: nat]"]
  by (simp add: batch_def batch_loop.simps slice_def)

section \<open>The grouped-insert builder of the batch strategy\<close>

text \<open>
  The characters below 256 for which \<^verbatim>\<open>str.isspace\<close> holds; \<^verbatim>\<open>str.split()\<close> and
  \<^verbatim>\<open>str.strip()\<close> without arguments use the same set.
\<close>

definition is_space :: "char \<Rightarrow> bool" where
  "is_space c \<longleftrightarrow> c \<in> set [CHR 0x09, CHR 0x0A, CHR 0x0B, CHR 0x0C, CHR 0x0D,
     CHR 0x1C, CHR 0x1D, CHR 0x1E, CHR 0x1F, CHR 0x20, CHR 0x85, CHR 0xA0]"

text \<open>
  \<^verbatim>\<open>s.split()\<close>: the maximal runs of characters that are not whitespace. The first
  argument of the loop is the run read so far.
\<close>

fun split_ws_from :: "string \<Rightarrow> string \<Rightarrow> string list" where
  "split_ws_from cur [] = (if cur = [] then [] else [cur])"
| "split_ws_from cur (c # cs) =
     (if is_space c then (if cur = [] then split_ws_from [] cs else cur # split_ws_from [] cs)
      else split_ws_from (cur @ [c]) cs)"

definition str_split_ws :: "string \<Rightarrow> string list" where
  "str_split_ws s = split_ws_from [] s"

text \<open>\<^verbatim>\<open>sep.join(xs)\<close>.\<close>

fun str_join :: "string \<Rightarrow> string list \<Rightarrow> string" where
  "str_join sep [] = []"
| "str_join sep [x] = x"
| "str_join sep (x # y # ys) = x @ sep @ str_join sep (y # ys)"

text \<open>\<^verbatim>\<open>str(i)\<close> for an index \<open>i\<close> of \<^verbatim>\<open>range(len(rows))\<close>: its decimal digits.\<close>

function str_nat :: "nat \<Rightarrow> string" where
  "str_nat n =
     (if n < 10 then [''0123456789'' ! n]
      else str_nat (n div 10) @ [''0123456789'' ! (n mod 10)])"
  by pat_completeness auto
termination
  by (relation "measure id") auto

declare str_nat.simps [simp del]

text \<open>
  \<^verbatim>\<open>
  def _bulk_insert_sql(table, rows):
      if not rows:
          raise ValueError('Must be at least one dictionary in the rows variable')
      else:
          keys = set(rows[0].keys())
          for row in rows:
              if set(row.keys()) != keys:
                  raise ValueError('All dictionaries must contain the same keys')
      sql = (f'''
      INSERT INTO {table}
          (''' + ','.join(keys) + ''')
          VALUES
          ''' + ','.join([ '('+','.join([f':{key}{i}' for key in keys])+')'
                            for i in range(len(rows))]) + '''
          ON CONFLICT DO NOTHING
          ''')
      binds = { key+str(i):value for i,row in enumerate(rows) for key,value in row.items() }
      return (' '.join(sql.split()), binds)
  \<close>
  A row is the list of the items of its dict. Python iterates the set \<^verbatim>\<open>keys\<close> in an
  order that depends on the hashes of the strings, which change from one run of the
  interpreter to the next, and is the same at every iteration of the unchanged set:
  the order is the parameter \<open>set_iter\<close>, which gives the list of the elements of a
  set as the iteration produces them.
  \<open>placeholders keys i\<close> is the list \<^verbatim>\<open>[f':{key}{i}' for key in keys]\<close>,
  \<open>insert_sql_text\<close> the text \<^verbatim>\<open>sql\<close> before its whitespace is normalised,
  \<open>bind_items\<close> the items of the dict comprehension in the order it produces them, and
  \<open>dict_of_items\<close> the dict they build (a later item replaces an earlier one with the
  same key).
\<close>

definition placeholders :: "string list \<Rightarrow> nat \<Rightarrow> string list" where
  "placeholders keys i = map (\<lambda>key. '':'' @ key @ str_nat i) keys"

definition insert_sql_text :: "string \<Rightarrow> string list \<Rightarrow> nat \<Rightarrow> string" where
  "insert_sql_text table keys n =
     [CHR 0x0A] @ ''    INSERT INTO '' @ table @ [CHR 0x0A] @ ''        (''
     @ str_join '','' keys
     @ '')'' @ [CHR 0x0A] @ ''        VALUES'' @ [CHR 0x0A] @ ''        ''
     @ str_join '','' (map (\<lambda>i. ''('' @ str_join '','' (placeholders keys i) @ '')'') [0..<n])
     @ [CHR 0x0A] @ ''        ON CONFLICT DO NOTHING'' @ [CHR 0x0A] @ ''        ''"

definition bind_items :: "(string \<times> 'v) list list \<Rightarrow> (string \<times> 'v) list" where
  "bind_items rows =
     concat (map (\<lambda>(i, row). map (\<lambda>(key, value). (key @ str_nat i, value)) row)
       (zip [0..<length rows] rows))"

definition dict_of_items :: "('k \<times> 'v) list \<Rightarrow> ('k \<rightharpoonup> 'v)" where
  "dict_of_items items = map_of (rev items)"

definition bulk_insert_sql ::
  "(string set \<Rightarrow> string list) \<Rightarrow> string \<Rightarrow> (string \<times> 'v) list list
    \<Rightarrow> py_error + (string \<times> (string \<rightharpoonup> 'v))" where
  "bulk_insert_sql set_iter table rows =
     (if rows = [] then Inl ValueError
      else
        let keys = set (map fst (hd rows)) in
        if list_ex (\<lambda>row. set (map fst row) \<noteq> keys) rows then Inl ValueError
        else Inr (str_join '' '' (str_split_ws
                    (insert_sql_text table (set_iter keys) (length rows))),
                  dict_of_items (bind_items rows)))"

text \<open>
  \<^verbatim>\<open>
  def bulk_insert(connection, table, rows):
      if len(rows) == 0:
          return
      sql, binds = _bulk_insert_sql(table, rows)
      connection.execute(sqlalchemy.sql.text(sql), binds)
  \<close>
  The connection is the list of the statements executed on it so far, each with its
  bind parameters.
\<close>

type_synonym 'v connection = "(string \<times> (string \<rightharpoonup> 'v)) list"

definition bulk_insert ::
  "(string set \<Rightarrow> string list) \<Rightarrow> 'v connection \<Rightarrow> string \<Rightarrow> (string \<times> 'v) list list
    \<Rightarrow> 'v connection \<times> (py_error + unit)" where
  "bulk_insert set_iter connection table rows =
     (if length rows = 0 then (connection, Inr ())
      else case bulk_insert_sql set_iter table rows of
        Inl e \<Rightarrow> (connection, Inl e)
      | Inr (sql, binds) \<Rightarrow> (connection @ [(sql, binds)], Inr ()))"

subsection \<open>Validation of the row-set\<close>

lemma str_nat_digit: "n < 10 \<Longrightarrow> str_nat n = [''0123456789'' ! n]"
  by (subst str_nat.simps) simp

lemma dom_dict_of_items: "dom (dict_of_items items) = fst ` set items"
  by (simp add: dict_of_items_def dom_map_of_conv_image_fst)

lemma bind_items_mem:
  assumes "i < length rows" "(k, v) \<in> set (rows ! i)"
  shows "(k @ str_nat i, v) \<in> set (bind_items rows)"
proof -
  have "(i, rows ! i) \<in> set (zip [0..<length rows] rows)"
    using assms(1) by (force simp: set_zip)
  moreover have "(k @ str_nat i, v)
      \<in> set ((\<lambda>(i, row). map (\<lambda>(key, value). (key @ str_nat i, value)) row) (i, rows ! i))"
    using assms(2) by force
  ultimately show ?thesis
    unfolding bind_items_def set_concat set_map by blast
qed

lemma bulk_insert_sql_invalid:
  assumes "rows = [] \<or> (\<exists>r \<in> set rows. set (map fst r) \<noteq> set (map fst (hd rows)))"
  shows "bulk_insert_sql set_iter table rows = Inl ValueError"
proof (cases "rows = []")
  case True
  then show ?thesis by (simp add: bulk_insert_sql_def)
next
  case False
  with assms have "list_ex (\<lambda>row. set (map fst row) \<noteq> set (map fst (hd rows))) rows"
    unfolding list_ex_iff by blast
  then show ?thesis unfolding bulk_insert_sql_def Let_def by (simp only: if_True if_False False)
qed

lemma bulk_insert_sql_valid:
  assumes "rows \<noteq> []" "\<forall>r \<in> set rows. set (map fst r) = set (map fst (hd rows))"
  shows "bulk_insert_sql set_iter table rows =
     Inr (str_join '' '' (str_split_ws
            (insert_sql_text table (set_iter (set (map fst (hd rows)))) (length rows))),
          dict_of_items (bind_items rows))"
proof -
  have "\<not> list_ex (\<lambda>row. set (map fst row) \<noteq> set (map fst (hd rows))) rows"
    unfolding list_ex_iff using assms(2) by blast
  then show ?thesis
    unfolding bulk_insert_sql_def Let_def using assms(1) by (simp only: if_True if_False)
qed

lemma dict_of_items_distinct:
  "distinct (map fst items) \<Longrightarrow> (k, v) \<in> set items \<Longrightarrow> dict_of_items items k = Some v"
  by (simp add: dict_of_items_def rev_map [symmetric])

lemma dict_of_items_mem: "dict_of_items items k = Some v \<Longrightarrow> (k, v) \<in> set items"
  unfolding dict_of_items_def by (drule map_of_SomeD) simp

text \<open>
  \<open>bulk_insert\<close> passes the error of the builder on without executing anything; on an
  empty row-set it returns before it calls the builder, without an error and without
  a statement.
\<close>

lemma bulk_insert_invalid:
  assumes "rows \<noteq> []" "\<exists>r \<in> set rows. set (map fst r) \<noteq> set (map fst (hd rows))"
  shows "bulk_insert set_iter connection table rows = (connection, Inl ValueError)"
proof -
  have "bulk_insert_sql set_iter table rows = Inl ValueError"
    using assms(2) by (intro bulk_insert_sql_invalid) blast
  then show ?thesis using assms(1) by (simp add: bulk_insert_def)
qed

lemma bulk_insert_empty: "bulk_insert set_iter connection table [] = (connection, Inr ())"
  by (simp add: bulk_insert_def)

text \<open>
  For a non-empty row-set whose rows have the same key set, every field of every row
  has its column and, in the tuple of its row, its placeholder, and the placeholder is
  bound; it is bound to the value of the field when no two fields of the row-set have
  the same bind name \<^verbatim>\<open>key+str(i)\<close>.
\<close>

lemma bulk_insert_sql_fields:
  assumes ne: "rows \<noteq> []"
    and same: "\<forall>r \<in> set rows. set (map fst r) = set (map fst (hd rows))"
    and iter: "set (set_iter (set (map fst (hd rows)))) = set (map fst (hd rows))"
    and i: "i < length rows" and kv: "(k, v) \<in> set (rows ! i)"
  shows "k \<in> set (set_iter (set (map fst (hd rows))))"
    and "'':'' @ k @ str_nat i \<in> set (placeholders (set_iter (set (map fst (hd rows)))) i)"
    and "dict_of_items (bind_items rows) (k @ str_nat i) \<noteq> None"
    and "distinct (map fst (bind_items rows)) \<Longrightarrow>
           dict_of_items (bind_items rows) (k @ str_nat i) = Some v"
proof -
  have "rows ! i \<in> set rows" using i by (rule nth_mem)
  with same have "set (map fst (rows ! i)) = set (map fst (hd rows))" by blast
  moreover have "k \<in> set (map fst (rows ! i))" using kv by (force simp: image_iff)
  ultimately show k: "k \<in> set (set_iter (set (map fst (hd rows))))" unfolding iter by blast
  have m: "(k @ str_nat i, v) \<in> set (bind_items rows)"
    using i kv by (rule bind_items_mem)
  then have "fst (k @ str_nat i, v) \<in> fst ` set (bind_items rows)" by (rule imageI)
  then have "k @ str_nat i \<in> dom (dict_of_items (bind_items rows))"
    by (simp only: dom_dict_of_items fst_conv)
  then show "dict_of_items (bind_items rows) (k @ str_nat i) \<noteq> None" by blast
  show "'':'' @ k @ str_nat i \<in> set (placeholders (set_iter (set (map fst (hd rows)))) i)"
    using k by (simp add: placeholders_def image_iff)
  show "dict_of_items (bind_items rows) (k @ str_nat i) = Some v"
    if "distinct (map fst (bind_items rows))"
    using that m by (simp add: dict_of_items_distinct)
qed

text \<open>
  The statement for two rows of the fields \<^verbatim>\<open>id\<close> and \<^verbatim>\<open>name\<close>, when the set of
  the keys is iterated in this order.
\<close>

lemma bulk_insert_sql_example:
  "\<exists>binds. bulk_insert_sql (\<lambda>keys. [''id'', ''name'']) ''users''
       [[(''id'', 1 :: nat), (''name'', 2)], [(''name'', 3), (''id'', 4)]]
     = Inr (''INSERT INTO users (id,name) VALUES (:id0,:name0),(:id1,:name1) ON CONFLICT DO NOTHING'',
            binds)
     \<and> binds ''id0'' = Some 1 \<and> binds ''name0'' = Some 2
     \<and> binds ''name1'' = Some 3 \<and> binds ''id1'' = Some 4"
proof -
  let ?good = "[[(''id'', 1 :: nat), (''name'', 2)], [(''name'', 3), (''id'', 4)]]"
  have good: "?good \<noteq> []" "\<forall>r \<in> set ?good. set (map fst r) = set (map fst (hd ?good))"
    by auto
  have sqltext: "str_join '' '' (str_split_ws
        (insert_sql_text ''users'' [''id'', ''name''] (length ?good)))
      = ''INSERT INTO users (id,name) VALUES (:id0,:name0),(:id1,:name1) ON CONFLICT DO NOTHING''"
    by code_simp
  have b: "dict_of_items (bind_items ?good) ''id0'' = Some 1"
    "dict_of_items (bind_items ?good) ''name0'' = Some 2"
    "dict_of_items (bind_items ?good) ''name1'' = Some 3"
    "dict_of_items (bind_items ?good) ''id1'' = Some 4"
    by code_simp+
  have "bulk_insert_sql (\<lambda>keys. [''id'', ''name'']) ''users'' ?good =
      Inr (''INSERT INTO users (id,name) VALUES (:id0,:name0),(:id1,:name1) ON CONFLICT DO NOTHING'',
           dict_of_items (bind_items ?good))"
    using bulk_insert_sql_valid [OF good, of "\<lambda>keys. [''id'', ''name'']" "''users''"]
    unfolding sqltext .
  with b show ?thesis by blast
qed

text \<open>
  Eleven rows of the fields \<^verbatim>\<open>a\<close> and \<^verbatim>\<open>a1\<close>:
  \<^verbatim>\<open>[{'a': i, 'a1': 100 + i} for i in range(11)]\<close>.
\<close>

definition colliding_rows :: "(string \<times> int) list list" where
  "colliding_rows = map (\<lambda>i. [(''a'', int i), (''a1'', 100 + int i)]) [0..<11]"

text \<open>
  Claim C4 at this row-set, which is not empty and whose rows have the same key set.
  The field \<^verbatim>\<open>a1\<close> of row 0 and the field \<^verbatim>\<open>a\<close> of row 10 have the same bind name
  \<^verbatim>\<open>a10\<close>, hence the same placeholder. The builder returns a statement, which
  \<open>bulk_insert\<close> executes, and in its bind parameters \<^verbatim>\<open>a10\<close> is the value 10 of
  row 10; the value 100 of the field \<^verbatim>\<open>a1\<close> of row 0 is bound under no name.
\<close>

theorem bulk_insert_sql_drops_value:
  "colliding_rows ! 0 = [(''a'', 0), (''a1'', 100)]
   \<and> colliding_rows ! 10 = [(''a'', 10), (''a1'', 110)]
   \<and> length colliding_rows = 11
   \<and> list_all (\<lambda>row. set (map fst row) = {''a'', ''a1''}) colliding_rows
   \<and> ''a1'' @ str_nat 0 = ''a10'' \<and> ''a'' @ str_nat 10 = ''a10''
   \<and> placeholders [''a'', ''a1''] 0 = ['':a0'', '':a10'']
   \<and> placeholders [''a'', ''a1''] 10 = ['':a10'', '':a110'']
   \<and> (\<exists>sql binds. bulk_insert_sql set_iter ''t'' colliding_rows = Inr (sql, binds)
        \<and> bulk_insert set_iter [] ''t'' colliding_rows = ([(sql, binds)], Inr ())
        \<and> binds ''a10'' = Some 10
        \<and> (\<forall>name. binds name \<noteq> Some 100))
   \<and> (\<exists>binds. bulk_insert_sql (\<lambda>keys. [''a'', ''a1'']) ''t'' colliding_rows =
        Inr (''INSERT INTO t (a,a1) VALUES (:a0,:a10),(:a1,:a11),(:a2,:a12),(:a3,:a13),''
             @ ''(:a4,:a14),(:a5,:a15),(:a6,:a16),(:a7,:a17),(:a8,:a18),(:a9,:a19),''
             @ ''(:a10,:a110) ON CONFLICT DO NOTHING'', binds))"
proof -
  have sqltext: "str_join '' '' (str_split_ws
        (insert_sql_text ''t'' [''a'', ''a1''] (length colliding_rows)))
      = ''INSERT INTO t (a,a1) VALUES (:a0,:a10),(:a1,:a11),(:a2,:a12),(:a3,:a13),''
        @ ''(:a4,:a14),(:a5,:a15),(:a6,:a16),(:a7,:a17),(:a8,:a18),(:a9,:a19),''
        @ ''(:a10,:a110) ON CONFLICT DO NOTHING''"
    by code_simp
  have p0: "placeholders [''a'', ''a1''] 0 = ['':a0'', '':a10'']" by code_simp
  have p10: "placeholders [''a'', ''a1''] 10 = ['':a10'', '':a110'']" by code_simp
  let ?binds = "dict_of_items (bind_items colliding_rows)"
  let ?sql = "str_join '' '' (str_split_ws
      (insert_sql_text ''t'' (set_iter (set (map fst (hd colliding_rows)))) (length colliding_rows)))"
  have r0: "colliding_rows ! 0 = [(''a'', 0), (''a1'', 100)]" by code_simp
  have r10: "colliding_rows ! 10 = [(''a'', 10), (''a1'', 110)]" by code_simp
  have len: "length colliding_rows = 11" by code_simp
  have hom: "list_all (\<lambda>row. set (map fst row) = {''a'', ''a1''}) colliding_rows" by code_simp
  have n0: "''a1'' @ str_nat 0 = ''a10''" by code_simp
  have n10: "''a'' @ str_nat 10 = ''a10''" by code_simp
  have ne: "colliding_rows \<noteq> []" by code_simp
  have same: "\<forall>r \<in> set colliding_rows. set (map fst r) = set (map fst (hd colliding_rows))"
    unfolding list_all_iff [symmetric] by code_simp
  have sql: "bulk_insert_sql set_iter ''t'' colliding_rows = Inr (?sql, ?binds)"
    using ne same by (rule bulk_insert_sql_valid)
  have ins: "bulk_insert set_iter [] ''t'' colliding_rows = ([(?sql, ?binds)], Inr ())"
    unfolding bulk_insert_def sql using ne by simp
  have b: "?binds ''a10'' = Some 10" by code_simp
  have only: "list_all (\<lambda>kv. snd kv \<noteq> 100 \<or> fst kv = ''a10'') (bind_items colliding_rows)"
    by code_simp
  have none: "?binds name \<noteq> Some 100" for name
  proof
    assume a: "?binds name = Some 100"
    then have "(name, 100) \<in> set (bind_items colliding_rows)" by (rule dict_of_items_mem)
    with only have "name = ''a10''" by (auto simp: list_all_iff)
    with a b show False by simp
  qed
  from sql ins b none have "\<exists>sql binds. bulk_insert_sql set_iter ''t'' colliding_rows = Inr (sql, binds)
        \<and> bulk_insert set_iter [] ''t'' colliding_rows = ([(sql, binds)], Inr ())
        \<and> binds ''a10'' = Some 10
        \<and> (\<forall>name. binds name \<noteq> Some 100)"
    by blast
  moreover have "\<exists>binds. bulk_insert_sql (\<lambda>keys. [''a'', ''a1'']) ''t'' colliding_rows =
        Inr (''INSERT INTO t (a,a1) VALUES (:a0,:a10),(:a1,:a11),(:a2,:a12),(:a3,:a13),''
             @ ''(:a4,:a14),(:a5,:a15),(:a6,:a16),(:a7,:a17),(:a8,:a18),(:a9,:a19),''
             @ ''(:a10,:a110) ON CONFLICT DO NOTHING'', binds)"
    using bulk_insert_sql_valid [OF ne same, of "\<lambda>keys. [''a'', ''a1'']" "''t''"]
    unfolding sqltext by blast
  ultimately show ?thesis using r0 r10 len hom n0 n10 p0 p10 by blast
qed

section \<open>Reading a record\<close>

text \<open>
  \<^verbatim>\<open>v[k]\<close> for a string key: \<^verbatim>\<open>KeyError\<close> on a dict without the key, \<^verbatim>\<open>TypeError\<close>
  on every other value (a list or string indexed by a string, \<^verbatim>\<open>None\<close>, a number).
  \<open>getpath\<close> is a chain of such subscripts.
\<close>

fun getitem :: "json \<Rightarrow> string \<Rightarrow> py_error + json" where
  "getitem (JDict kvs) k = (case map_of kvs k of None \<Rightarrow> Inl KeyError | Some v \<Rightarrow> Inr v)"
| "getitem v k = Inl TypeError"

fun getpath :: "json \<Rightarrow> string list \<Rightarrow> py_error + json" where
  "getpath v [] = Inr v"
| "getpath v (k # ks) = and_then (getitem v k) (\<lambda>w. getpath w ks)"

text \<open>
  \<^verbatim>\<open>v[i]\<close> for an integer index; a negative index counts from the end. A dict read
  from JSON has string keys only, so an integer key is missing.
\<close>

definition seq_index :: "'a list \<Rightarrow> int \<Rightarrow> py_error + 'a" where
  "seq_index xs i =
     (if 0 \<le> i \<and> i < int (length xs) then Inr (xs ! nat i)
      else if i < 0 \<and> - int (length xs) \<le> i then Inr (xs ! nat (int (length xs) + i))
      else Inl IndexError)"

fun getindex :: "json \<Rightarrow> int \<Rightarrow> py_error + json" where
  "getindex (JList xs) i = seq_index xs i"
| "getindex (JStr s) i = and_then (seq_index s i) (\<lambda>c. Inr (JStr [c]))"
| "getindex (JDict kvs) i = Inl KeyError"
| "getindex v i = Inl TypeError"

text \<open>
  \<^verbatim>\<open>v.get(k, dflt)\<close>: only a dict has the method (\<open>as_dict\<close>), and the default argument
  is evaluated by the caller before the call.
\<close>

fun as_dict :: "json \<Rightarrow> py_error + (string \<times> json) list" where
  "as_dict (JDict kvs) = Inr kvs"
| "as_dict v = Inl AttributeError"

definition get_or :: "(string \<times> json) list \<Rightarrow> string \<Rightarrow> json \<Rightarrow> json" where
  "get_or kvs k dflt = (case map_of kvs k of None \<Rightarrow> dflt | Some v \<Rightarrow> v)"

definition dict_get :: "json \<Rightarrow> string \<Rightarrow> json \<Rightarrow> py_error + json" where
  "dict_get d k dflt = and_then (as_dict d) (\<lambda>kvs. Inr (get_or kvs k dflt))"

text \<open>
  \<^verbatim>\<open>a == b\<close> on values read from JSON: numbers (and booleans, which are integers in
  Python) are compared by value, lists element by element, dicts by their key sets and
  the values under each key, strings and \<^verbatim>\<open>None\<close> with themselves only.
\<close>

fun num_val :: "json \<Rightarrow> rat option" where
  "num_val (JBool b) = Some (if b then 1 else 0)"
| "num_val (JInt i) = Some (of_int i)"
| "num_val (JFloat q) = Some q"
| "num_val v = None"

fun py_eq :: "json \<Rightarrow> json \<Rightarrow> bool" where
  "py_eq (JList xs) (JList ys) = list_all2 py_eq xs ys"
| "py_eq (JDict kvs) (JDict kvs') =
     (set (map fst kvs) = set (map fst kvs')
      \<and> list_all (\<lambda>kv. case map_of kvs' (fst kv) of None \<Rightarrow> False | Some v' \<Rightarrow> py_eq (snd kv) v') kvs)"
| "py_eq (JStr s) (JStr t) = (s = t)"
| "py_eq JNull JNull = True"
| "py_eq a b = (case (num_val a, num_val b) of (Some x, Some y) \<Rightarrow> x = y | _ \<Rightarrow> False)"

text \<open>\<^verbatim>\<open>try: ... except c: ...\<close> for one exception class \<open>c\<close>.\<close>

fun catch_only :: "py_error \<Rightarrow> py_error + 'a \<Rightarrow> (py_error + 'a) \<Rightarrow> py_error + 'a" where
  "catch_only c (Inl e) h = (if e = c then h else Inl e)"
| "catch_only c (Inr x) h = Inr x"

text \<open>
  \<^verbatim>\<open>for pt in v\<close>: the elements of a list, the characters of a string, the keys of a
  dict. \<^verbatim>\<open>v.append(x)\<close>: only a list has the method.
\<close>

fun py_iter :: "json \<Rightarrow> py_error + json list" where
  "py_iter (JList xs) = Inr xs"
| "py_iter (JStr s) = Inr (map (\<lambda>c. JStr [c]) s)"
| "py_iter (JDict kvs) = Inr (map (\<lambda>kv. JStr (fst kv)) kvs)"
| "py_iter v = Inl TypeError"

fun list_append :: "json \<Rightarrow> json \<Rightarrow> py_error + json" where
  "list_append (JList xs) x = Inr (JList (xs @ [x]))"
| "list_append v x = Inl AttributeError"

section \<open>Derived fields of the row strategy\<close>

text \<open>
  The statements of \<^verbatim>\<open>insert_tweet\<close> that derive the location, the text, the country
  and state codes and the entity lists from the record, each as a function of the
  record that reaches it (in \<^verbatim>\<open>insert_tweet\<close> that is \<^verbatim>\<open>clean_dict(tweet)\<close>).
  \<^verbatim>\<open>
  try:
      coords = tweet['geo']['coordinates']
      wkt = f"POINT({coords[0]} {coords[1]})"
  except Exception:
      try:
          ring = tweet['place']['bounding_box']['coordinates'][0]
          if ring[0] != ring[-1]:
              ring.append(ring[0])
          pts = ", ".join(f"{pt[0]} {pt[1]}" for pt in ring)
          wkt = f"POLYGON(({pts}))"
      except Exception:
          wkt = None
  \<close>
  How Python formats a value inside an f-string (the \<^verbatim>\<open>repr\<close> of a float, above all) is
  not part of the repository: it is the parameter \<open>fmt\<close>.
\<close>

definition point_text :: "(json \<Rightarrow> string) \<Rightarrow> json \<Rightarrow> py_error + string" where
  "point_text fmt pt =
     and_then (getindex pt 0) (\<lambda>a.
     and_then (getindex pt 1) (\<lambda>b.
     Inr (fmt a @ '' '' @ fmt b)))"

definition row_close_ring :: "json \<Rightarrow> py_error + json" where
  "row_close_ring ring =
     and_then (getindex ring 0) (\<lambda>first.
     and_then (getindex ring (- 1)) (\<lambda>final.
     if \<not> py_eq first final then list_append ring first else Inr ring))"

definition row_polygon :: "(json \<Rightarrow> string) \<Rightarrow> json \<Rightarrow> py_error + string" where
  "row_polygon fmt tweet =
     and_then (getpath tweet [''place'', ''bounding_box'', ''coordinates'']) (\<lambda>cs.
     and_then (getindex cs 0) (\<lambda>ring0.
     and_then (row_close_ring ring0) (\<lambda>ring.
     and_then (py_iter ring) (\<lambda>pts.
     and_then (map_result (point_text fmt) pts) (\<lambda>ps.
     Inr (''POLYGON(('' @ str_join '', '' ps @ ''))''))))))"

definition row_point :: "(json \<Rightarrow> string) \<Rightarrow> json \<Rightarrow> py_error + string" where
  "row_point fmt tweet =
     and_then (getpath tweet [''geo'', ''coordinates'']) (\<lambda>coords.
     and_then (point_text fmt coords) (\<lambda>p.
     Inr (''POINT('' @ p @ '')'')))"

definition row_wkt :: "(json \<Rightarrow> string) \<Rightarrow> json \<Rightarrow> json" where
  "row_wkt fmt tweet =
     (case row_point fmt tweet of
        Inr s \<Rightarrow> JStr s
      | Inl e \<Rightarrow>
          (case row_polygon fmt tweet of
             Inr s \<Rightarrow> JStr s
           | Inl e' \<Rightarrow> JNull))"

section \<open>Derived fields of the batch strategy: location\<close>

text \<open>
  \<^verbatim>\<open>
  try:
      geo_coords = tweet['geo']['coordinates']
      geo_coords = f"{geo_coords[0]} {geo_coords[1]}"
      geo_str = 'POINT'
  except TypeError:
      # (polygon parsing omitted for brevity)
      geo_str = None
      geo_coords = None
  \<close>
  The result is the pair \<^verbatim>\<open>(geo_str, geo_coords)\<close>.
\<close>

definition batch_geo :: "(json \<Rightarrow> string) \<Rightarrow> json \<Rightarrow> py_error + json \<times> json" where
  "batch_geo fmt tweet =
     catch_only TypeError
       (and_then (getpath tweet [''geo'', ''coordinates'']) (\<lambda>geo_coords.
        and_then (point_text fmt geo_coords) (\<lambda>p.
        Inr (JStr ''POINT'', JStr p))))
       (Inr (JNull, JNull))"

section \<open>Text, country and state, entities\<close>

text \<open>
  \<^verbatim>\<open>str.strip()\<close> and \<^verbatim>\<open>s.split(sep)\<close> for a separator of one character.
\<close>

definition str_strip :: "string \<Rightarrow> string" where
  "str_strip s = rev (dropWhile is_space (rev (dropWhile is_space s)))"

fun str_split :: "char \<Rightarrow> string \<Rightarrow> string list" where
  "str_split sep [] = [[]]"
| "str_split sep (c # cs) =
     (if c = sep then [] # str_split sep cs
      else (case str_split sep cs of w # ws \<Rightarrow> (c # w) # ws | [] \<Rightarrow> [[c]]))"

fun as_str :: "json \<Rightarrow> py_error + string" where
  "as_str (JStr s) = Inr s"
| "as_str v = Inl AttributeError"

text \<open>
  Row strategy:
  \<^verbatim>\<open>
  text = remove_nulls(
      tweet.get('extended_tweet', {}).get('full_text', tweet['text'])
  )
  \<close>
  Batch strategy (the bare \<^verbatim>\<open>except\<close> catches everything; \<^verbatim>\<open>remove_nulls\<close> is applied
  where the row of the \<^verbatim>\<open>tweets\<close> relation is built):
  \<^verbatim>\<open>
  try:
      text = tweet['extended_tweet']['full_text']
  except:
      text = tweet['text']
  \<close>
\<close>

definition row_text :: "json \<Rightarrow> py_error + json" where
  "row_text tweet =
     and_then (as_dict tweet) (\<lambda>t.
     and_then (as_dict (get_or t ''extended_tweet'' (JDict []))) (\<lambda>ext.
     and_then (getitem tweet ''text'') (\<lambda>dflt.
     remove_nulls (get_or ext ''full_text'' dflt))))"

definition batch_text :: "json \<Rightarrow> py_error + json" where
  "batch_text tweet =
     and_then
       (case getpath tweet [''extended_tweet'', ''full_text''] of
          Inr text \<Rightarrow> Inr text
        | Inl e \<Rightarrow> getitem tweet ''text'')
       remove_nulls_batch"

text \<open>
  Both files have the same statements for the country and the state code:
  \<^verbatim>\<open>
  country_code = None
  try:
      country_code = tweet['place']['country_code'].lower()
  except Exception:
      pass

  state_code = None
  if country_code == 'us':
      sc = tweet['place']['full_name'].split(',')[-1].strip().lower()
      state_code = sc if len(sc) <= 2 else None
  \<close>
  \<^verbatim>\<open>str.lower\<close> follows the case mapping of Unicode, which is not part of the
  repository and can change the number of characters of a string: it is the parameter
  \<open>lower\<close>, and nothing is assumed of it. The length is tested after the lower-casing,
  as in the source.
\<close>

definition row_country_code :: "(string \<Rightarrow> string) \<Rightarrow> json \<Rightarrow> json" where
  "row_country_code lower tweet =
     (case and_then (getpath tweet [''place'', ''country_code'']) as_str of
        Inr cc \<Rightarrow> JStr (lower cc)
      | Inl e \<Rightarrow> JNull)"

definition row_state_code :: "(string \<Rightarrow> string) \<Rightarrow> json \<Rightarrow> py_error + json" where
  "row_state_code lower tweet =
     (if row_country_code lower tweet = JStr ''us'' then
        and_then (getpath tweet [''place'', ''full_name'']) (\<lambda>full_name.
        and_then (as_str full_name) (\<lambda>fn.
        let sc = lower (str_strip (last (str_split CHR '','' fn)))
        in Inr (if length sc \<le> 2 then JStr sc else JNull)))
      else Inr JNull)"




text \<open>
  The next statement of the row strategy reads the name of the place:
  \<^verbatim>\<open>
  place_name = tweet.get('place', {}).get('full_name')
  \<close>
\<close>

definition row_place_name :: "json \<Rightarrow> py_error + json" where
  "row_place_name tweet =
     and_then (dict_get tweet ''place'' (JDict [])) (\<lambda>place.
     dict_get place ''full_name'' JNull)"

text \<open>
  Row strategy, once for each of \<^verbatim>\<open>urls\<close>, \<^verbatim>\<open>user_mentions\<close>, \<^verbatim>\<open>hashtags\<close> and
  \<^verbatim>\<open>symbols\<close>:
  \<^verbatim>\<open>
  urls = tweet.get('extended_tweet', {}).get('entities', {}).get('urls',
         tweet['entities']['urls'])
  \<close>
\<close>

definition row_entities :: "json \<Rightarrow> string \<Rightarrow> py_error + json" where
  "row_entities tweet name =
     and_then (as_dict tweet) (\<lambda>t.
     and_then (as_dict (get_or t ''extended_tweet'' (JDict []))) (\<lambda>ext.
     and_then (as_dict (get_or ext ''entities'' (JDict []))) (\<lambda>ents.
     and_then (getpath tweet [''entities'', name]) (\<lambda>dflt.
     Inr (get_or ents name dflt)))))"

definition row_urls :: "json \<Rightarrow> py_error + json" where
  "row_urls tweet = row_entities tweet ''urls''"

definition row_mentions :: "json \<Rightarrow> py_error + json" where
  "row_mentions tweet = row_entities tweet ''user_mentions''"

definition row_hashtags :: "json \<Rightarrow> py_error + json" where
  "row_hashtags tweet = row_entities tweet ''hashtags''"

definition row_cashtags :: "json \<Rightarrow> py_error + json" where
  "row_cashtags tweet = row_entities tweet ''symbols''"

text \<open>
  Batch strategy: \<^verbatim>\<open>urls\<close> and \<^verbatim>\<open>user_mentions\<close> each in a \<^verbatim>\<open>try\<close> of their own,
  \<^verbatim>\<open>hashtags\<close> and \<^verbatim>\<open>symbols\<close> in one:
  \<^verbatim>\<open>
  try:
      urls = tweet['extended_tweet']['entities']['urls']
  except KeyError:
      urls = tweet['entities']['urls']
  ...
  try:
      hashtags = tweet['extended_tweet']['entities']['hashtags']
      cashtags = tweet['extended_tweet']['entities']['symbols']
  except KeyError:
      hashtags = tweet['entities']['hashtags']
      cashtags = tweet['entities']['symbols']
  \<close>
\<close>

definition batch_urls :: "json \<Rightarrow> py_error + json" where
  "batch_urls tweet =
     catch_only KeyError (getpath tweet [''extended_tweet'', ''entities'', ''urls''])
       (getpath tweet [''entities'', ''urls''])"

definition batch_mentions :: "json \<Rightarrow> py_error + json" where
  "batch_mentions tweet =
     catch_only KeyError (getpath tweet [''extended_tweet'', ''entities'', ''user_mentions''])
       (getpath tweet [''entities'', ''user_mentions''])"

definition batch_tags :: "json \<Rightarrow> py_error + json \<times> json" where
  "batch_tags tweet =
     catch_only KeyError
       (and_then (getpath tweet [''extended_tweet'', ''entities'', ''hashtags'']) (\<lambda>hashtags.
        and_then (getpath tweet [''extended_tweet'', ''entities'', ''symbols'']) (\<lambda>cashtags.
        Inr (hashtags, cashtags))))
       (and_then (getpath tweet [''entities'', ''hashtags'']) (\<lambda>hashtags.
        and_then (getpath tweet [''entities'', ''symbols'']) (\<lambda>cashtags.
        Inr (hashtags, cashtags))))"

section \<open>Properties of the derived fields\<close>

text \<open>
  On strings of code points below 256, \<^verbatim>\<open>str.lower\<close> moves the letters A to Z, and
  the Latin-1 capitals from 192 to 222 except the multiplication sign 215, up by 32
  and leaves every other character as it is. The examples below take this function
  for \<open>lower\<close>.
\<close>

definition lower_char :: "char \<Rightarrow> char" where
  "lower_char c =
     (let n = (of_char c :: nat)
      in if (65 \<le> n \<and> n \<le> 90) \<or> (192 \<le> n \<and> n \<le> 222 \<and> n \<noteq> 215)
         then char_of (n + 32) else c)"

definition lower_latin1 :: "string \<Rightarrow> string" where
  "lower_latin1 s = map lower_char s"


subsection \<open>Country and state code\<close>

lemma clean_dict_Inr: "clean_dict n d = Inr r \<Longrightarrow> r = without_nulls d"
  by (simp add: clean_dict_depth split: if_splits)

lemma getitem_without_nulls:
  "getitem tweet k = Inr v \<Longrightarrow> getitem (without_nulls tweet) k = Inr (without_nulls v)"
proof (cases tweet)
  case (JDict kvs)
  assume "getitem tweet k = Inr v"
  with JDict have "map_of kvs k = Some v" by (auto split: option.splits)
  then have "map_of (map (map_prod id without_nulls) kvs) k = Some (without_nulls v)"
    by (induction kvs) (auto split: if_splits)
  with JDict show ?thesis by simp
qed simp_all

















text \<open>
  Claim C6. In both strategies the body text is \<^verbatim>\<open>extended_tweet.full_text\<close> when the
  record has it and \<^verbatim>\<open>text\<close> otherwise, passed through the strategy's
  \<^verbatim>\<open>remove_nulls\<close>.
\<close>

theorem body_text_selection:
  "(getitem tweet ''text'' = Inr t
      \<and> getitem tweet ''extended_tweet'' = Inr (JDict ext)
      \<and> map_of ext ''full_text'' = Some v \<longrightarrow>
     row_text tweet = remove_nulls v \<and> batch_text tweet = remove_nulls_batch v)
   \<and> (getitem tweet ''text'' = Inr t
      \<and> (getitem tweet ''extended_tweet'' = Inl KeyError
          \<or> (\<exists>ext. getitem tweet ''extended_tweet'' = Inr (JDict ext)
                \<and> map_of ext ''full_text'' = None)) \<longrightarrow>
     row_text tweet = remove_nulls t \<and> batch_text tweet = remove_nulls_batch t)"
proof (intro conjI impI)
  assume a: "getitem tweet ''text'' = Inr t
      \<and> getitem tweet ''extended_tweet'' = Inr (JDict ext)
      \<and> map_of ext ''full_text'' = Some v"
  then obtain kvs where kvs: "tweet = JDict kvs" by (cases tweet) auto
  from a kvs have e: "map_of kvs ''extended_tweet'' = Some (JDict ext)"
    by (auto split: option.splits)
  from a kvs e show "row_text tweet = remove_nulls v"
    by (simp add: row_text_def get_or_def)
  from a kvs e show "batch_text tweet = remove_nulls_batch v"
    by (simp add: batch_text_def)
next
  assume a: "getitem tweet ''text'' = Inr t
      \<and> (getitem tweet ''extended_tweet'' = Inl KeyError
          \<or> (\<exists>ext. getitem tweet ''extended_tweet'' = Inr (JDict ext)
                \<and> map_of ext ''full_text'' = None))"
  then obtain kvs where kvs: "tweet = JDict kvs" by (cases tweet) auto
  from a kvs have "map_of kvs ''extended_tweet'' = None
      \<or> (\<exists>ext. map_of kvs ''extended_tweet'' = Some (JDict ext) \<and> map_of ext ''full_text'' = None)"
    by (auto split: option.splits)
  then show "row_text tweet = remove_nulls t"
    using a kvs by (auto simp: row_text_def get_or_def)
  from a kvs show "batch_text tweet = remove_nulls_batch t"
    by (auto simp: batch_text_def split: option.splits)
qed

theorem body_text_selection_witness:
  "row_text (JDict [(''text'', JStr ''short''),
       (''extended_tweet'', JDict [(''full_text'', JStr ''short with more'')])])
     = Inr (JStr ''short with more'')
   \<and> batch_text (JDict [(''text'', JStr ''short''),
       (''extended_tweet'', JDict [(''full_text'', JStr ''short with more'')])])
     = Inr (JStr ''short with more'')
   \<and> row_text (JDict [(''text'', JStr ''short'')]) = Inr (JStr ''short'')
   \<and> batch_text (JDict [(''text'', JStr ''short'')]) = Inr (JStr ''short'')"
proof -
  let ?e = "[(''full_text'', JStr ''short with more'')]"
  let ?t = "JDict [(''text'', JStr ''short''), (''extended_tweet'', JDict ?e)]"
  let ?u = "JDict [(''text'', JStr ''short'')]"
  have h1: "getitem ?t ''text'' = Inr (JStr ''short'')
      \<and> getitem ?t ''extended_tweet'' = Inr (JDict ?e)
      \<and> map_of ?e ''full_text'' = Some (JStr ''short with more'')"
    by simp
  have h2: "getitem ?u ''text'' = Inr (JStr ''short'')
      \<and> (getitem ?u ''extended_tweet'' = Inl KeyError
          \<or> (\<exists>ext. getitem ?u ''extended_tweet'' = Inr (JDict ext)
                \<and> map_of ext ''full_text'' = None))"
    by simp
  have e1: "remove_nulls (JStr ''short with more'') = Inr (JStr ''short with more'')"
    "remove_nulls_batch (JStr ''short with more'') = Inr (JStr ''short with more'')"
    "remove_nulls (JStr ''short'') = Inr (JStr ''short'')"
    "remove_nulls_batch (JStr ''short'') = Inr (JStr ''short'')"
    by (simp_all add: str_replace_char_def NUL_def)
  from body_text_selection [of ?t "JStr ''short''" ?e "JStr ''short with more''"] h1
  have 1: "row_text ?t = remove_nulls (JStr ''short with more'')
      \<and> batch_text ?t = remove_nulls_batch (JStr ''short with more'')"
    by blast
  from body_text_selection [of ?u "JStr ''short''"] h2
  have 2: "row_text ?u = remove_nulls (JStr ''short'')
      \<and> batch_text ?u = remove_nulls_batch (JStr ''short'')"
    by blast
  from 1 2 show ?thesis by (simp only: e1 simp_thms)
qed

text \<open>
  The location. The row strategy gives a point when the record has coordinates, else a
  polygon from the first ring of the bounding box, closed by its first vertex when the
  first and the last vertex differ, else nothing. The batch strategy gives a point or
  nothing.
\<close>

lemma batch_geo_point_or_none:
  "batch_geo fmt tweet = Inr (geo_str, geo_coords) \<Longrightarrow>
   geo_str = JStr ''POINT'' \<or> (geo_str = JNull \<and> geo_coords = JNull)"
  unfolding batch_geo_def
  by (cases "getpath tweet [''geo'', ''coordinates'']";
      cases "and_then (getpath tweet [''geo'', ''coordinates'']) (point_text fmt)")
     (auto split: if_splits)

lemma row_wkt_point:
  "getpath tweet [''geo'', ''coordinates''] = Inr coords \<Longrightarrow>
   getindex coords 0 = Inr a \<Longrightarrow> getindex coords 1 = Inr b \<Longrightarrow>
   row_wkt fmt tweet = JStr (''POINT('' @ fmt a @ '' '' @ fmt b @ '')'')"
  by (simp add: row_wkt_def row_point_def point_text_def)

lemma row_wkt_polygon:
  assumes "row_point fmt tweet = Inl e"
    and "getpath tweet [''place'', ''bounding_box'', ''coordinates''] = Inr cs"
    and "getindex cs 0 = Inr (JList (p # ps))"
    and "map_result (point_text fmt)
           (if py_eq p (last (p # ps)) then p # ps else p # ps @ [p]) = Inr texts"
  shows "row_wkt fmt tweet = JStr (''POLYGON(('' @ str_join '', '' texts @ ''))'')"
proof -
  have l: "seq_index (p # ps) (- 1) = Inr (last (p # ps))"
    by (simp add: seq_index_def last_conv_nth nat_add_distrib)
  have "row_close_ring (JList (p # ps))
      = Inr (JList (if py_eq p (last (p # ps)) then p # ps else p # ps @ [p]))"
    unfolding row_close_ring_def by (simp add: l) (simp add: seq_index_def)
  with assms show ?thesis
    by (simp add: row_wkt_def row_polygon_def)
qed

lemma row_wkt_none:
  "row_point fmt tweet = Inl e \<Longrightarrow> row_polygon fmt tweet = Inl e' \<Longrightarrow> row_wkt fmt tweet = JNull"
  by (simp add: row_wkt_def)

text \<open>
  Claim C1 at the record of the specification's example (a place with a bounding box,
  no direct coordinates): the row strategy derives the closed polygon, the batch
  strategy derives no location.
\<close>

theorem batch_geo_misses_polygon:
  "row_wkt fmt (JDict [(''geo'', JNull),
       (''place'', JDict [(''bounding_box'', JDict [(''coordinates'', JList [JList [
           JList [JFloat (-122.5), JFloat 37.7], JList [JFloat (-122.5), JFloat 37.9],
           JList [JFloat (-122.3), JFloat 37.9], JList [JFloat (-122.3), JFloat 37.7]]])])])])
     = JStr (''POLYGON((''
         @ fmt (JFloat (-122.5)) @ '' '' @ fmt (JFloat 37.7) @ '', ''
         @ fmt (JFloat (-122.5)) @ '' '' @ fmt (JFloat 37.9) @ '', ''
         @ fmt (JFloat (-122.3)) @ '' '' @ fmt (JFloat 37.9) @ '', ''
         @ fmt (JFloat (-122.3)) @ '' '' @ fmt (JFloat 37.7) @ '', ''
         @ fmt (JFloat (-122.5)) @ '' '' @ fmt (JFloat 37.7) @ ''))'')
   \<and> batch_geo fmt (JDict [(''geo'', JNull),
       (''place'', JDict [(''bounding_box'', JDict [(''coordinates'', JList [JList [
           JList [JFloat (-122.5), JFloat 37.7], JList [JFloat (-122.5), JFloat 37.9],
           JList [JFloat (-122.3), JFloat 37.9], JList [JFloat (-122.3), JFloat 37.7]]])])])])
     = Inr (JNull, JNull)"
  by (simp add: row_wkt_def row_point_def row_polygon_def row_close_ring_def point_text_def
      batch_geo_def seq_index_def)

text \<open>
  The entity lists. In the row strategy each entity type takes the list of the extended
  container when that container has the type and the default list otherwise.
\<close>

lemma row_entities_resolve:
  assumes "getpath tweet [''entities'', name] = Inr dflt"
    and "getitem tweet ''extended_tweet'' = Inl KeyError
         \<or> (\<exists>ext. getitem tweet ''extended_tweet'' = Inr (JDict ext)
               \<and> (map_of ext ''entities'' = None
                  \<or> (\<exists>ents. map_of ext ''entities'' = Some (JDict ents))))"
  shows "row_entities tweet name =
     Inr (case getpath tweet [''extended_tweet'', ''entities'', name] of
            Inr v \<Rightarrow> v | Inl e \<Rightarrow> dflt)"
proof -
  from assms(1) obtain kvs where kvs: "tweet = JDict kvs" by (cases tweet) auto
  from assms show ?thesis unfolding kvs
    by (auto simp: row_entities_def get_or_def split: option.splits)
qed

text \<open>
  Claim C3 at a record with extended hashtags and no other extended entity list: the
  row strategy uses the extended hashtags and the default urls; the batch strategy
  uses the default urls and, the extended symbols being absent, the default hashtags.
\<close>

theorem batch_tags_coupled:
  "row_hashtags (JDict [
       (''extended_tweet'', JDict [(''entities'', JDict [
          (''hashtags'', JList [JDict [(''text'', JStr ''long'')]])])]),
       (''entities'', JDict [
          (''urls'', JList [JDict [(''expanded_url'', JStr ''u'')]]),
          (''user_mentions'', JList []),
          (''hashtags'', JList [JDict [(''text'', JStr ''short'')]]),
          (''symbols'', JList [])])])
     = Inr (JList [JDict [(''text'', JStr ''long'')]])
   \<and> row_urls (JDict [
       (''extended_tweet'', JDict [(''entities'', JDict [
          (''hashtags'', JList [JDict [(''text'', JStr ''long'')]])])]),
       (''entities'', JDict [
          (''urls'', JList [JDict [(''expanded_url'', JStr ''u'')]]),
          (''user_mentions'', JList []),
          (''hashtags'', JList [JDict [(''text'', JStr ''short'')]]),
          (''symbols'', JList [])])])
     = Inr (JList [JDict [(''expanded_url'', JStr ''u'')]])
   \<and> batch_urls (JDict [
       (''extended_tweet'', JDict [(''entities'', JDict [
          (''hashtags'', JList [JDict [(''text'', JStr ''long'')]])])]),
       (''entities'', JDict [
          (''urls'', JList [JDict [(''expanded_url'', JStr ''u'')]]),
          (''user_mentions'', JList []),
          (''hashtags'', JList [JDict [(''text'', JStr ''short'')]]),
          (''symbols'', JList [])])])
     = Inr (JList [JDict [(''expanded_url'', JStr ''u'')]])
   \<and> batch_tags (JDict [
       (''extended_tweet'', JDict [(''entities'', JDict [
          (''hashtags'', JList [JDict [(''text'', JStr ''long'')]])])]),
       (''entities'', JDict [
          (''urls'', JList [JDict [(''expanded_url'', JStr ''u'')]]),
          (''user_mentions'', JList []),
          (''hashtags'', JList [JDict [(''text'', JStr ''short'')]]),
          (''symbols'', JList [])])])
     = Inr (JList [JDict [(''text'', JStr ''short'')]], JList [])"
  by (simp add: row_hashtags_def row_urls_def row_entities_def get_or_def batch_urls_def
      batch_tags_def)

section \<open>The row strategy: \<^verbatim>\<open>insert_tweet\<close>\<close>

text \<open>
  Modelled from the spec: the relational store behind the connection, which is not
  among the source files. Its relations are \<^verbatim>\<open>urls\<close>, \<^verbatim>\<open>users\<close>, \<^verbatim>\<open>tweets\<close>,
  \<^verbatim>\<open>tweet_urls\<close>, \<^verbatim>\<open>tweet_mentions\<close>, \<^verbatim>\<open>tweet_tags\<close> and \<^verbatim>\<open>tweet_media\<close>; a row
  of \<^verbatim>\<open>users\<close> or \<^verbatim>\<open>tweets\<close> is its key with the bound parameters of the insert, a
  row of \<^verbatim>\<open>urls\<close> is the URL with the surrogate id the store gave it, and an association
  row is the tuple of its columns. Every \<^verbatim>\<open>INSERT ... ON CONFLICT DO NOTHING\<close> is
  insert-if-absent on the key; values are compared as they are bound. Failures of the
  store itself (a type or constraint error, a lost connection) are outside the model.
  The connection also counts the transactions begun on it.
\<close>

record store =
  urls :: "(json \<times> int) list"
  users :: "(json \<times> (string \<times> json) list) list"
  tweets :: "(json \<times> (string \<times> json) list) list"
  tweet_urls :: "(json \<times> json) list"
  tweet_mentions :: "(json \<times> json) list"
  tweet_tags :: "(json \<times> json) list"
  tweet_media :: "(json \<times> json \<times> json) list"

record row_connection =
  db :: store
  begun :: nat

definition insert_if_absent :: "'k \<Rightarrow> 'r \<Rightarrow> ('k \<times> 'r) list \<Rightarrow> ('k \<times> 'r) list" where
  "insert_if_absent k r table = (if k \<in> set (map fst table) then table else table @ [(k, r)])"

definition add_if_absent :: "'r \<Rightarrow> 'r list \<Rightarrow> 'r list" where
  "add_if_absent r table = (if r \<in> set table then table else table @ [r])"

text \<open>
  \<^verbatim>\<open>
  def get_id_urls(url, connection):
      sql = sqlalchemy.sql.text('''
      insert into urls (url) values (:url)
      on conflict do nothing
      returning id_urls ;
      ''')
      res = connection.execute(sql, {'url': url}).first()
      if res is None:
          sql = sqlalchemy.sql.text('''
          select id_urls from urls where url = :url
          ''')
          res = connection.execute(sql, {'url': url}).first()
      return res[0]
  \<close>
  The insert returns the new id when the URL was absent, and nothing otherwise, in which
  case the select finds the row.
\<close>

definition get_id_urls :: "json \<Rightarrow> store \<Rightarrow> json \<times> store" where
  "get_id_urls url st =
     (case map_of (urls st) url of
        Some i \<Rightarrow> (JInt i, st)
      | None \<Rightarrow>
          (let i = int (length (urls st)) + 1
           in (JInt i, st\<lparr>urls := urls st @ [(url, i)]\<rparr>)))"

text \<open>
  A \<^verbatim>\<open>for\<close> loop whose body updates the store and may raise; the truth value of a
  value in an \<^verbatim>\<open>if\<close>; \<^verbatim>\<open>'#' + v\<close> (only strings can be concatenated to a string);
  and a parameter read from a required field.
\<close>

fun fold_result :: "('a \<Rightarrow> 's \<Rightarrow> 'e + 's) \<Rightarrow> 'a list \<Rightarrow> 's \<Rightarrow> 'e + 's" where
  "fold_result f [] s = Inr s"
| "fold_result f (x # xs) s = and_then (f x s) (fold_result f xs)"

fun py_truthy :: "json \<Rightarrow> bool" where
  "py_truthy JNull = False"
| "py_truthy (JBool b) = b"
| "py_truthy (JInt i) = (i \<noteq> 0)"
| "py_truthy (JFloat q) = (q \<noteq> 0)"
| "py_truthy (JStr s) = (s \<noteq> [])"
| "py_truthy (JList xs) = (xs \<noteq> [])"
| "py_truthy (JDict kvs) = (kvs \<noteq> [])"

fun str_concat :: "string \<Rightarrow> json \<Rightarrow> py_error + json" where
  "str_concat p (JStr s) = Inr (JStr (p @ s))"
| "str_concat p v = Inl TypeError"

definition required :: "json \<Rightarrow> string list \<Rightarrow> string \<Rightarrow> py_error + string \<times> json" where
  "required tweet path name = and_then (getpath tweet path) (\<lambda>v. Inr (name, v))"

text \<open>
  The body of the transaction of \<^verbatim>\<open>insert_tweet\<close>, in the order of the source, as
  functions from the store to the new store or the exception raised: the \<^verbatim>\<open>users\<close>
  row of the author (lines 87 to 121), the \<^verbatim>\<open>tweets\<close> row with the stub of the
  replied-to user (lines 126 to 201), and the loops over the urls (206 to 215), the
  mentions (220 to 235), the tags (240 to 251) and the media (256 to 265).
\<close>

definition step_user :: "json \<Rightarrow> store \<Rightarrow> py_error + store" where
  "step_user tweet st =
     and_then (getpath tweet [''user'', ''url'']) (\<lambda>url.
     let (user_url_id, st1) = (if url = JNull then (JNull, st) else get_id_urls url st) in
     and_then (getitem tweet ''user'') (\<lambda>user.
     and_then (required tweet [''user'', ''id''] ''id_users'') (\<lambda>p1.
     and_then (required tweet [''user'', ''created_at''] ''created_at'') (\<lambda>p2.
     and_then (dict_get user ''updated_at'' JNull) (\<lambda>updated_at.
     and_then (map_result (\<lambda>k. required tweet [''user'', k] k)
        [''friends_count'', ''listed_count'', ''favourites_count'', ''statuses_count'',
         ''protected'', ''verified'', ''screen_name'', ''name'', ''location'',
         ''description'']) (\<lambda>ps.
     and_then (dict_get user ''withheld_in_countries'' (JList [])) (\<lambda>withheld.
     Inr (st1\<lparr>users := insert_if_absent (snd p1)
            ([p1, p2, (''updated_at'', updated_at), (''url'', user_url_id)] @ ps
             @ [(''withheld_in_countries'', withheld)])
            (users st1)\<rparr>))))))))"

definition step_tweet ::
  "(json \<Rightarrow> string) \<Rightarrow> (string \<Rightarrow> string) \<Rightarrow> json \<Rightarrow> store \<Rightarrow> py_error + store" where
  "step_tweet fmt lower tweet st =
     (let wkt = row_wkt fmt tweet in
      and_then (row_text tweet) (\<lambda>text.
      let country_code = row_country_code lower tweet in
      and_then (row_state_code lower tweet) (\<lambda>state_code.
      and_then (row_place_name tweet) (\<lambda>place_name.
      and_then (dict_get tweet ''in_reply_to_user_id'' JNull) (\<lambda>reply_to.
      and_then (if py_truthy reply_to
                then and_then (getitem tweet ''in_reply_to_user_id'') (\<lambda>u.
                     Inr (st\<lparr>users := insert_if_absent u [(''id_users'', u)] (users st)\<rparr>))
                else Inr st) (\<lambda>st1.
      and_then (required tweet [''id''] ''id_tweets'') (\<lambda>p1.
      and_then (required tweet [''user'', ''id''] ''id_users'') (\<lambda>p2.
      and_then (required tweet [''created_at''] ''created_at'') (\<lambda>p3.
      and_then (as_dict tweet) (\<lambda>t.
      Inr (st1\<lparr>tweets := insert_if_absent (snd p1)
             [p1, p2, p3,
              (''in_reply_to_status_id'', get_or t ''in_reply_to_status_id'' JNull),
              (''in_reply_to_user_id'', get_or t ''in_reply_to_user_id'' JNull),
              (''quoted_status_id'', get_or t ''quoted_status_id'' JNull),
              (''retweet_count'', get_or t ''retweet_count'' (JInt 0)),
              (''favorite_count'', get_or t ''favorite_count'' (JInt 0)),
              (''quote_count'', get_or t ''quote_count'' (JInt 0)),
              (''withheld_copyright'', get_or t ''withheld_copyright'' (JBool False)),
              (''withheld_in_countries'', get_or t ''withheld_in_countries'' (JList [])),
              (''source'', get_or t ''source'' JNull),
              (''text'', text),
              (''country_code'', country_code),
              (''state_code'', state_code),
              (''lang'', get_or t ''lang'' JNull),
              (''place_name'', place_name),
              (''wkt'', wkt)]
             (tweets st1)\<rparr>)))))))))))"

definition step_urls :: "json \<Rightarrow> store \<Rightarrow> py_error + store" where
  "step_urls tweet st =
     and_then (row_urls tweet) (\<lambda>urls.
     and_then (py_iter urls) (\<lambda>us.
     fold_result (\<lambda>u s.
         and_then (getitem u ''expanded_url'') (\<lambda>url.
         let (url_id, s1) = get_id_urls url s in
         and_then (getitem tweet ''id'') (\<lambda>t.
         Inr (s1\<lparr>tweet_urls := add_if_absent (t, url_id) (tweet_urls s1)\<rparr>))))
       us st))"

definition step_mentions :: "json \<Rightarrow> store \<Rightarrow> py_error + store" where
  "step_mentions tweet st =
     and_then (row_mentions tweet) (\<lambda>mentions.
     and_then (py_iter mentions) (\<lambda>ms.
     fold_result (\<lambda>m s.
         and_then (getitem m ''id'') (\<lambda>u.
         let s1 = s\<lparr>users := insert_if_absent u [(''id_users'', u)] (users s)\<rparr> in
         and_then (getitem tweet ''id'') (\<lambda>t.
         and_then (getitem m ''id'') (\<lambda>u'.
         Inr (s1\<lparr>tweet_mentions := add_if_absent (t, u') (tweet_mentions s1)\<rparr>)))))
       ms st))"

definition row_tags :: "json \<Rightarrow> py_error + json list" where
  "row_tags tweet =
     and_then (row_hashtags tweet) (\<lambda>hashtags.
     and_then (row_cashtags tweet) (\<lambda>cashtags.
     and_then (py_iter hashtags) (\<lambda>hs.
     and_then (map_result (\<lambda>h. and_then (getitem h ''text'') (str_concat ''#'')) hs) (\<lambda>htags.
     and_then (py_iter cashtags) (\<lambda>cs.
     and_then (map_result (\<lambda>c. and_then (getitem c ''text'') (str_concat ''$'')) cs) (\<lambda>ctags.
     Inr (htags @ ctags)))))))"

definition step_tags :: "json \<Rightarrow> store \<Rightarrow> py_error + store" where
  "step_tags tweet st =
     and_then (row_tags tweet) (\<lambda>tags.
     fold_result (\<lambda>tag s.
         and_then (getitem tweet ''id'') (\<lambda>t.
         Inr (s\<lparr>tweet_tags := add_if_absent (t, tag) (tweet_tags s)\<rparr>)))
       tags st)"

definition row_media :: "json \<Rightarrow> py_error + json" where
  "row_media tweet =
     and_then (dict_get tweet ''extended_tweet'' (JDict [])) (\<lambda>ext.
     and_then (dict_get ext ''extended_entities'' (JDict [])) (\<lambda>xents.
     and_then (as_dict xents) (\<lambda>xe.
     and_then (dict_get tweet ''extended_entities'' (JDict [])) (\<lambda>ents.
     and_then (dict_get ents ''media'' (JList [])) (\<lambda>dflt.
     Inr (get_or xe ''media'' dflt))))))"

definition step_media :: "json \<Rightarrow> store \<Rightarrow> py_error + store" where
  "step_media tweet st =
     and_then (row_media tweet) (\<lambda>media.
     and_then (py_iter media) (\<lambda>ms.
     fold_result (\<lambda>m s.
         and_then (getitem m ''media_url'') (\<lambda>url.
         let (media_id, s1) = get_id_urls url s in
         and_then (getitem tweet ''id'') (\<lambda>t.
         and_then (getitem m ''type'') (\<lambda>ty.
         Inr (s1\<lparr>tweet_media := add_if_absent (t, media_id, ty) (tweet_media s1)\<rparr>)))))
       ms st))"

definition insert_tweet_body ::
  "(json \<Rightarrow> string) \<Rightarrow> (string \<Rightarrow> string) \<Rightarrow> json \<Rightarrow> store \<Rightarrow> py_error + store" where
  "insert_tweet_body fmt lower tweet st =
     and_then (step_user tweet st) (\<lambda>st1.
     and_then (step_tweet fmt lower tweet st1) (\<lambda>st2.
     and_then (step_urls tweet st2) (\<lambda>st3.
     and_then (step_mentions tweet st3) (\<lambda>st4.
     and_then (step_tags tweet st4) (\<lambda>st5.
     step_media tweet st5)))))"

text \<open>
  \<^verbatim>\<open>
  def insert_tweet(connection, tweet):
      check = sqlalchemy.sql.text('''
      SELECT id_tweets FROM tweets WHERE id_tweets = :id_tweets
      ''')
      if connection.execute(check, {'id_tweets': tweet['id']}).first():
          return
      tweet = clean_dict(tweet)
      with connection.begin():
          ...
  \<close>
  An exception inside the \<^verbatim>\<open>with\<close> block rolls the transaction back: the store is
  as it was when the transaction began, and the exception propagates. A
  \<^verbatim>\<open>RecursionError\<close> of \<^verbatim>\<open>clean_dict\<close> propagates before the transaction begins;
  \<open>limit\<close> is the number of nested calls for which the stack has room there.
\<close>

definition insert_tweet ::
  "(json \<Rightarrow> string) \<Rightarrow> (string \<Rightarrow> string) \<Rightarrow> nat \<Rightarrow> row_connection \<Rightarrow> json
    \<Rightarrow> (py_error + unit) \<times> row_connection" where
  "insert_tweet fmt lower limit connection tweet =
     (case getitem tweet ''id'' of
        Inl e \<Rightarrow> (Inl e, connection)
      | Inr id_tweets \<Rightarrow>
          if id_tweets \<in> set (map fst (tweets (db connection))) then (Inr (), connection)
          else
            (case clean_dict limit tweet of
               Inl e \<Rightarrow> (Inl e, connection)
             | Inr cleaned \<Rightarrow>
                 (case insert_tweet_body fmt lower cleaned (db connection) of
                    Inl e \<Rightarrow> (Inl e, connection\<lparr>begun := Suc (begun connection)\<rparr>)
                  | Inr st \<Rightarrow>
                      (Inr (), connection\<lparr>db := st, begun := Suc (begun connection)\<rparr>))))"

subsection \<open>Skipping a record that is already loaded\<close>

lemma and_then_Inr:
  "and_then m f = Inr y \<longleftrightarrow> (\<exists>x. m = Inr x \<and> f x = Inr y)"
  by (cases m) simp_all

lemma tweets_get_id_urls: "tweets (snd (get_id_urls url st)) = tweets st"
  by (simp add: get_id_urls_def Let_def split: option.splits)

lemma fold_result_invariant:
  assumes "fold_result f xs s = Inr s'" and "P s"
    and "\<And>x a b. f x a = Inr b \<Longrightarrow> P a \<Longrightarrow> P b"
  shows "P s'"
  using assms(1,2)
proof (induction xs arbitrary: s)
  case Nil
  then show ?case by simp
next
  case (Cons x xs)
  from Cons.prems(1) obtain a where a: "f x s = Inr a" and r: "fold_result f xs a = Inr s'"
    by (auto simp: and_then_Inr)
  from a Cons.prems(2) have "P a" by (rule assms(3))
  with r show ?case by (rule Cons.IH)
qed

lemma tweets_step_urls: "step_urls tweet st = Inr st' \<Longrightarrow> tweets st' = tweets st"
  unfolding step_urls_def and_then_Inr
  apply clarify
  apply (erule fold_result_invariant [where P = "\<lambda>s. tweets s = tweets st"])
   apply simp
  apply (auto simp: and_then_Inr get_id_urls_def Let_def split: prod.splits option.splits)
  done

lemma tweets_step_mentions: "step_mentions tweet st = Inr st' \<Longrightarrow> tweets st' = tweets st"
  unfolding step_mentions_def and_then_Inr
  apply clarify
  apply (erule fold_result_invariant [where P = "\<lambda>s. tweets s = tweets st"])
   apply simp
  apply (auto simp: and_then_Inr Let_def)
  done

lemma tweets_step_tags: "step_tags tweet st = Inr st' \<Longrightarrow> tweets st' = tweets st"
  unfolding step_tags_def and_then_Inr
  apply clarify
  apply (erule fold_result_invariant [where P = "\<lambda>s. tweets s = tweets st"])
   apply simp
  apply (auto simp: and_then_Inr)
  done

lemma tweets_step_media: "step_media tweet st = Inr st' \<Longrightarrow> tweets st' = tweets st"
  unfolding step_media_def and_then_Inr
  apply clarify
  apply (erule fold_result_invariant [where P = "\<lambda>s. tweets s = tweets st"])
   apply simp
  apply (auto simp: and_then_Inr get_id_urls_def Let_def split: prod.splits option.splits)
  done

lemma fst_insert_if_absent: "k \<in> fst ` set (insert_if_absent k r table)"
  by (auto simp: insert_if_absent_def)

lemma tweets_step_tweet:
  assumes "step_tweet fmt lower tweet st = Inr st'" and "getitem tweet ''id'' = Inr tid"
  shows "tid \<in> fst ` set (tweets st')"
proof -
  from assms(2) have r: "required tweet [''id''] ''id_tweets'' = Inr (''id_tweets'', tid)"
    by (simp add: required_def)
  from assms(1) obtain st1 row where "st' = st1\<lparr>tweets := insert_if_absent tid row (tweets st1)\<rparr>"
    unfolding step_tweet_def Let_def and_then_Inr r by auto
  then show ?thesis by (simp add: fst_insert_if_absent)
qed

lemma insert_tweet_body_has_id:
  assumes "insert_tweet_body fmt lower tweet st = Inr st'" and "getitem tweet ''id'' = Inr tid"
  shows "tid \<in> fst ` set (tweets st')"
proof -
  from assms(1) obtain s1 s2 s3 s4 s5 where
    "step_tweet fmt lower tweet s1 = Inr s2" "step_urls tweet s2 = Inr s3"
    "step_mentions tweet s3 = Inr s4" "step_tags tweet s4 = Inr s5" "step_media tweet s5 = Inr st'"
    unfolding insert_tweet_body_def and_then_Inr by blast
  then have "tweets st' = tweets s2" "tid \<in> fst ` set (tweets s2)"
    using assms(2)
    by (simp_all add: tweets_step_urls tweets_step_mentions tweets_step_tags tweets_step_media
        tweets_step_tweet)
  then show ?thesis by simp
qed

text \<open>
  Claim C8. When the post id of the record is already in the \<^verbatim>\<open>tweets\<close> relation,
  \<open>insert_tweet\<close> returns with the connection exactly as it was: no transaction is
  begun and no relation changes. Hence, for a record with an integer post id, a second
  load after a load that returned normally changes nothing.
\<close>

theorem insert_tweet_skips_existing:
  "(getitem tweet ''id'' = Inr tid \<and> tid \<in> fst ` set (tweets (db connection)) \<longrightarrow>
      insert_tweet fmt lower limit connection tweet = (Inr (), connection))
   \<and> (getitem tweet ''id'' = Inr (JInt i)
       \<and> insert_tweet fmt lower limit connection tweet = (Inr (), connection') \<longrightarrow>
      insert_tweet fmt lower limit connection' tweet = (Inr (), connection'))"
proof (intro conjI impI)
  assume "getitem tweet ''id'' = Inr tid \<and> tid \<in> fst ` set (tweets (db connection))"
  then have "getitem tweet ''id'' = Inr tid" "tid \<in> fst ` set (tweets (db connection))"
    by simp_all
  then show "insert_tweet fmt lower limit connection tweet = (Inr (), connection)"
    unfolding insert_tweet_def by simp
next
  assume a: "getitem tweet ''id'' = Inr (JInt i)
       \<and> insert_tweet fmt lower limit connection tweet = (Inr (), connection')"
  then have id: "getitem tweet ''id'' = Inr (JInt i)"
    and e: "insert_tweet fmt lower limit connection tweet = (Inr (), connection')"
    by simp_all
  have "JInt i \<in> fst ` set (tweets (db connection'))"
  proof (cases "JInt i \<in> fst ` set (tweets (db connection))")
    case True
    with e show ?thesis unfolding insert_tweet_def id by simp
  next
    case False
    with e obtain cleaned st where k: "clean_dict limit tweet = Inr cleaned"
      and b: "insert_tweet_body fmt lower cleaned (db connection) = Inr st"
      and c: "connection' = connection\<lparr>db := st, begun := Suc (begun connection)\<rparr>"
      unfolding insert_tweet_def id by (auto split: sum.splits)
    from k have "cleaned = without_nulls tweet" by (rule clean_dict_Inr)
    with getitem_without_nulls [OF id] have "getitem cleaned ''id'' = Inr (JInt i)"
      by simp
    with b have "JInt i \<in> fst ` set (tweets st)" by (rule insert_tweet_body_has_id)
    with c show ?thesis by simp
  qed
  then show "insert_tweet fmt lower limit connection' tweet = (Inr (), connection')"
    unfolding insert_tweet_def id by simp
qed

text \<open>An empty store and a record with every required field.\<close>

definition empty_store :: store where
  "empty_store = \<lparr>urls = [], users = [], tweets = [], tweet_urls = [], tweet_mentions = [],
     tweet_tags = [], tweet_media = []\<rparr>"

definition example_tweet :: json where
  "example_tweet = JDict [(''id'', JInt 7), (''created_at'', JStr ''Mon''), (''text'', JStr ''hi''),
     (''user'', JDict [(''id'', JInt 1), (''created_at'', JStr ''Sun''), (''url'', JStr ''http://u''),
        (''friends_count'', JInt 0), (''listed_count'', JInt 0), (''favourites_count'', JInt 0),
        (''statuses_count'', JInt 0), (''protected'', JBool False), (''verified'', JBool False),
        (''screen_name'', JStr ''s''), (''name'', JStr ''n''), (''location'', JNull),
        (''description'', JNull)]),
     (''geo'', JNull),
     (''entities'', JDict [(''urls'', JList [JDict [(''expanded_url'', JStr ''http://x'')]]),
        (''user_mentions'', JList [JDict [(''id'', JInt 2)]]),
        (''hashtags'', JList [JDict [(''text'', JStr ''tag'')]]), (''symbols'', JList [])])]"

theorem insert_tweet_skips_existing_witness:
  "insert_tweet (\<lambda>v. []) lower_latin1 10 \<lparr>db = empty_store\<lparr>tweets := [(JInt 7, [])]\<rparr>, begun = 0\<rparr>
       (JDict [(''id'', JInt 7)])
     = (Inr (), \<lparr>db = empty_store\<lparr>tweets := [(JInt 7, [])]\<rparr>, begun = 0\<rparr>)
   \<and> fst (insert_tweet (\<lambda>v. []) lower_latin1 10 \<lparr>db = empty_store, begun = 0\<rparr> example_tweet) = Inr ()
   \<and> map fst (tweets (db (snd (insert_tweet (\<lambda>v. []) lower_latin1 10 \<lparr>db = empty_store, begun = 0\<rparr>
         example_tweet)))) = [JInt 7]
   \<and> begun (snd (insert_tweet (\<lambda>v. []) lower_latin1 10 \<lparr>db = empty_store, begun = 0\<rparr> example_tweet)) = 1
   \<and> insert_tweet (\<lambda>v. []) lower_latin1 10 (snd (insert_tweet (\<lambda>v. []) lower_latin1 10 \<lparr>db = empty_store, begun = 0\<rparr>
         example_tweet)) example_tweet
     = (Inr (), snd (insert_tweet (\<lambda>v. []) lower_latin1 10 \<lparr>db = empty_store, begun = 0\<rparr> example_tweet))"
proof -
  let ?c = "\<lparr>db = empty_store\<lparr>tweets := [(JInt 7, [])]\<rparr>, begun = 0\<rparr>"
  let ?init = "\<lparr>db = empty_store, begun = 0\<rparr>"
  let ?r = "insert_tweet (\<lambda>v. []) lower_latin1 10 ?init example_tweet"
  have h1: "getitem (JDict [(''id'', JInt 7)]) ''id'' = Inr (JInt 7)
      \<and> JInt 7 \<in> fst ` set (tweets (db ?c))"
    by simp
  have f: "fst ?r = Inr ()" by code_simp
  have t: "map fst (tweets (db (snd ?r))) = [JInt 7]" by code_simp
  have b: "begun (snd ?r) = 1" by code_simp
  have h2: "getitem example_tweet ''id'' = Inr (JInt 7) \<and> ?r = (Inr (), snd ?r)"
    using f by (simp add: example_tweet_def prod_eq_iff)
  from insert_tweet_skips_existing [of "JDict [(''id'', JInt 7)]" "JInt 7" ?c "\<lambda>v. []" lower_latin1 10] h1
  have 1: "insert_tweet (\<lambda>v. []) lower_latin1 10 ?c (JDict [(''id'', JInt 7)]) = (Inr (), ?c)" by blast
  from insert_tweet_skips_existing [of example_tweet _ ?init "\<lambda>v. []" lower_latin1 10 7 "snd ?r"] h2
  have 2: "insert_tweet (\<lambda>v. []) lower_latin1 10 (snd ?r) example_tweet = (Inr (), snd ?r)" by blast
  from 1 f t b 2 show ?thesis by blast
qed

subsection \<open>A record whose place is null\<close>

text \<open>
  When the record has the key \<^verbatim>\<open>place\<close> with the value \<^verbatim>\<open>None\<close>, the statement
  \<^verbatim>\<open>tweet.get('place', {}).get('full_name')\<close> raises: \<open>insert_tweet\<close> raises for
  every such record that is not loaded yet, and the store is as it was.
\<close>

lemma step_tweet_place_null:
  assumes "getitem tweet ''place'' = Inr JNull"
  shows "\<exists>e. step_tweet fmt lower tweet st = Inl e"
proof -
  from assms obtain kvs where kvs: "tweet = JDict kvs" by (cases tweet) auto
  with assms have "map_of kvs ''place'' = Some JNull" by (auto split: option.splits)
  with kvs have p: "row_place_name tweet = Inl AttributeError"
    by (simp add: row_place_name_def dict_get_def get_or_def)
  show ?thesis
    unfolding step_tweet_def Let_def p
    by (cases "row_text tweet"; cases "row_state_code lower tweet") simp_all
qed

lemma insert_tweet_place_null:
  assumes "getitem tweet ''place'' = Inr JNull" and "getitem tweet ''id'' = Inr tid"
    and "tid \<notin> fst ` set (tweets (db connection))"
  shows "\<exists>e. fst (insert_tweet fmt lower limit connection tweet) = Inl e"
    and "db (snd (insert_tweet fmt lower limit connection tweet)) = db connection"
proof -
  have b: "\<exists>e. insert_tweet_body fmt lower cleaned st = Inl e"
    if "clean_dict limit tweet = Inr cleaned" for cleaned st
  proof -
    from that have "cleaned = without_nulls tweet" by (rule clean_dict_Inr)
    with getitem_without_nulls [OF assms(1)] have "getitem cleaned ''place'' = Inr JNull" by simp
    then have s: "\<exists>e. step_tweet fmt lower cleaned st1 = Inl e" for st1
      by (rule step_tweet_place_null)
    show ?thesis
    proof (cases "step_user cleaned st")
      case (Inl e)
      then show ?thesis by (simp add: insert_tweet_body_def)
    next
      case (Inr st1)
      from s obtain e where "step_tweet fmt lower cleaned st1 = Inl e" ..
      with Inr show ?thesis by (simp add: insert_tweet_body_def)
    qed
  qed
  show "\<exists>e. fst (insert_tweet fmt lower limit connection tweet) = Inl e"
  proof (cases "clean_dict limit tweet")
    case (Inl e)
    with assms(2,3) show ?thesis by (simp add: insert_tweet_def)
  next
    case (Inr cleaned)
    from b [OF Inr] obtain e where "insert_tweet_body fmt lower cleaned (db connection) = Inl e" ..
    with Inr assms(2,3) show ?thesis by (simp add: insert_tweet_def)
  qed
  show "db (snd (insert_tweet fmt lower limit connection tweet)) = db connection"
  proof (cases "clean_dict limit tweet")
    case (Inl e)
    with assms(2,3) show ?thesis by (simp add: insert_tweet_def)
  next
    case (Inr cleaned)
    from b [OF Inr] obtain e where "insert_tweet_body fmt lower cleaned (db connection) = Inl e" ..
    with Inr assms(2,3) show ?thesis by (simp add: insert_tweet_def)
  qed
qed

section \<open>The record as an object graph\<close>

text \<open>
  \<^verbatim>\<open>insert_tweet\<close> changes one Python object in place: \<^verbatim>\<open>ring.append(ring[0])\<close>.
  Whether the caller can see the change depends on which list object \<^verbatim>\<open>ring\<close> is,
  so here lists and dicts are objects in a heap, and a value is an immutable value or
  the address of a list or dict. Addresses are the indices of the heap; a new object
  is put at the end.
\<close>

datatype pval = PNull | PBool bool | PInt int | PFloat rat | PStr string | PRef nat

datatype pobj = PList "pval list" | PDict "(string \<times> pval) list"

type_synonym heap = "pobj list"

text \<open>
  \<^verbatim>\<open>clean_dict\<close> on the heap: a comprehension builds a new list or dict object from
  the results of the recursive calls, a string is replaced by a new string, every other
  value is returned as it is. The first argument bounds the depth of the recursion, as
  the interpreter's recursion limit does: \<open>None\<close> stands for \<^verbatim>\<open>RecursionError\<close>. An
  address outside the heap denotes no object.
\<close>

fun map_heap :: "(heap \<Rightarrow> 'a \<Rightarrow> (heap \<times> 'b) option) \<Rightarrow> heap \<Rightarrow> 'a list \<Rightarrow> (heap \<times> 'b list) option" where
  "map_heap f h [] = Some (h, [])"
| "map_heap f h (x # xs) =
     (case f h x of
        None \<Rightarrow> None
      | Some (h1, y) \<Rightarrow>
          (case map_heap f h1 xs of
             None \<Rightarrow> None
           | Some (h2, ys) \<Rightarrow> Some (h2, y # ys)))"

definition on_item :: "(heap \<Rightarrow> pval \<Rightarrow> (heap \<times> pval) option)
    \<Rightarrow> heap \<Rightarrow> string \<times> pval \<Rightarrow> (heap \<times> (string \<times> pval)) option" where
  "on_item f h kv = (case f h (snd kv) of None \<Rightarrow> None | Some (h1, v) \<Rightarrow> Some (h1, (fst kv, v)))"

primrec clean_dict_heap :: "nat \<Rightarrow> heap \<Rightarrow> pval \<Rightarrow> (heap \<times> pval) option" where
  "clean_dict_heap 0 h d = None"
| "clean_dict_heap (Suc n) h d =
     (case d of
        PRef a \<Rightarrow>
          (if a < length h then
             (case h ! a of
                PDict kvs \<Rightarrow>
                  (case map_heap (on_item (clean_dict_heap n)) h kvs of
                     None \<Rightarrow> None
                   | Some (h1, kvs') \<Rightarrow> Some (h1 @ [PDict kvs'], PRef (length h1)))
              | PList xs \<Rightarrow>
                  (case map_heap (clean_dict_heap n) h xs of
                     None \<Rightarrow> None
                   | Some (h1, xs') \<Rightarrow> Some (h1 @ [PList xs'], PRef (length h1))))
           else None)
      | PStr s \<Rightarrow> Some (h, PStr (str_replace_char NUL [] s))
      | _ \<Rightarrow> Some (h, d))"

text \<open>The subscripts and \<^verbatim>\<open>append\<close> on the heap.\<close>

fun getitem_heap :: "heap \<Rightarrow> pval \<Rightarrow> string \<Rightarrow> py_error + pval" where
  "getitem_heap h (PRef a) k =
     (if a < length h then
        (case h ! a of
           PDict kvs \<Rightarrow> (case map_of kvs k of None \<Rightarrow> Inl KeyError | Some v \<Rightarrow> Inr v)
         | PList xs \<Rightarrow> Inl TypeError)
      else Inl TypeError)"
| "getitem_heap h v k = Inl TypeError"

fun getpath_heap :: "heap \<Rightarrow> pval \<Rightarrow> string list \<Rightarrow> py_error + pval" where
  "getpath_heap h v [] = Inr v"
| "getpath_heap h v (k # ks) = and_then (getitem_heap h v k) (\<lambda>w. getpath_heap h w ks)"

fun getindex_heap :: "heap \<Rightarrow> pval \<Rightarrow> int \<Rightarrow> py_error + pval" where
  "getindex_heap h (PRef a) i =
     (if a < length h then
        (case h ! a of
           PList xs \<Rightarrow> seq_index xs i
         | PDict kvs \<Rightarrow> Inl KeyError)
      else Inl TypeError)"
| "getindex_heap h (PStr s) i = and_then (seq_index s i) (\<lambda>c. Inr (PStr [c]))"
| "getindex_heap h v i = Inl TypeError"

fun list_append_heap :: "heap \<Rightarrow> pval \<Rightarrow> pval \<Rightarrow> py_error + heap" where
  "list_append_heap h (PRef a) x =
     (if a < length h then
        (case h ! a of
           PList xs \<Rightarrow> Inr (h[a := PList (xs @ [x])])
         | PDict kvs \<Rightarrow> Inl AttributeError)
      else Inl AttributeError)"
| "list_append_heap h v x = Inl AttributeError"

text \<open>
  The value that an address denotes, read to a bounded depth; \<^verbatim>\<open>ring[0] != ring[-1]\<close>
  compares the values of the two vertices.
\<close>

primrec reify :: "nat \<Rightarrow> heap \<Rightarrow> pval \<Rightarrow> json option" where
  "reify 0 h v = None"
| "reify (Suc n) h v =
     (case v of
        PNull \<Rightarrow> Some JNull
      | PBool b \<Rightarrow> Some (JBool b)
      | PInt i \<Rightarrow> Some (JInt i)
      | PFloat q \<Rightarrow> Some (JFloat q)
      | PStr s \<Rightarrow> Some (JStr s)
      | PRef a \<Rightarrow>
          (if a < length h then
             (case h ! a of
                PList xs \<Rightarrow> map_option JList (those (map (reify n h) xs))
              | PDict kvs \<Rightarrow>
                  map_option JDict
                    (those (map (\<lambda>kv. map_option (Pair (fst kv)) (reify n h (snd kv))) kvs)))
           else None))"

definition differ_heap :: "nat \<Rightarrow> heap \<Rightarrow> pval \<Rightarrow> pval \<Rightarrow> py_error + bool" where
  "differ_heap n h a b =
     (case (reify n h a, reify n h b) of
        (Some x, Some y) \<Rightarrow> Inr (\<not> py_eq x y)
      | _ \<Rightarrow> Inl RecursionError)"

text \<open>
  The location block of \<^verbatim>\<open>insert_tweet\<close> (lines 127 to 138) as a function on the heap:
  the point is tried first and changes nothing; otherwise the ring is closed in place
  when its first and last vertex differ; every exception leaves the heap as it is at
  that moment.
\<close>

definition point_heap :: "heap \<Rightarrow> pval \<Rightarrow> py_error + unit" where
  "point_heap h tweet =
     and_then (getpath_heap h tweet [''geo'', ''coordinates'']) (\<lambda>coords.
     and_then (getindex_heap h coords 0) (\<lambda>a.
     and_then (getindex_heap h coords 1) (\<lambda>b. Inr ())))"

definition close_ring_heap :: "nat \<Rightarrow> heap \<Rightarrow> pval \<Rightarrow> py_error + heap" where
  "close_ring_heap n h tweet =
     and_then (getpath_heap h tweet [''place'', ''bounding_box'', ''coordinates'']) (\<lambda>cs.
     and_then (getindex_heap h cs 0) (\<lambda>ring.
     and_then (getindex_heap h ring 0) (\<lambda>first.
     and_then (getindex_heap h ring (- 1)) (\<lambda>final.
     and_then (differ_heap n h first final) (\<lambda>ne.
     if ne then list_append_heap h ring first else Inr h)))))"

definition wkt_heap :: "nat \<Rightarrow> heap \<Rightarrow> pval \<Rightarrow> heap" where
  "wkt_heap n h tweet =
     (case point_heap h tweet of
        Inr u \<Rightarrow> h
      | Inl e \<Rightarrow> (case close_ring_heap n h tweet of Inr h' \<Rightarrow> h' | Inl e' \<Rightarrow> h))"

text \<open>
  The effect of \<^verbatim>\<open>insert_tweet\<close> on the heap. The two flags stand for what the store
  decides: whether the record is already loaded (the function returns before
  \<^verbatim>\<open>clean_dict\<close>) and whether the statements between \<^verbatim>\<open>clean_dict\<close> and the
  location block raise. The statements after the location block only read the record.
\<close>

definition insert_tweet_heap :: "nat \<Rightarrow> bool \<Rightarrow> bool \<Rightarrow> heap \<Rightarrow> pval \<Rightarrow> heap" where
  "insert_tweet_heap n loaded user_raises h tweet =
     (if loaded then h
      else
        (case clean_dict_heap n h tweet of
           None \<Rightarrow> h
         | Some (h1, tweet1) \<Rightarrow> if user_raises then h1 else wkt_heap n h1 tweet1))"

definition example_heap :: heap where
  "example_heap = [PList [PFloat 1, PFloat 2], PList [PFloat 3, PFloat 4],
         PList [PRef 0, PRef 1],
         PList [PRef 2],
         PDict [(''coordinates'', PRef 3)],
         PDict [(''bounding_box'', PRef 4), (''full_name'', PStr [CHR ''a'', NUL])],
         PDict [(''id'', PInt 7), (''geo'', PNull), (''place'', PRef 5)]]"

subsection \<open>The caller's objects are not written\<close>

text \<open>
  \<open>fresh_from lo v\<close>: the value is immutable or an address from \<open>lo\<close> on.
  \<open>grown lo h h1\<close>: the heap \<open>h1\<close> is \<open>h\<close> followed by new objects that hold only such
  values. \<open>heap_closed\<close> and \<open>val_in\<close>: every address is the address of an object.
\<close>

definition fresh_from :: "nat \<Rightarrow> pval \<Rightarrow> bool" where
  "fresh_from lo v = (case v of PRef a \<Rightarrow> lo \<le> a | _ \<Rightarrow> True)"

fun vals_of :: "pobj \<Rightarrow> pval list" where
  "vals_of (PList xs) = xs"
| "vals_of (PDict kvs) = map snd kvs"

definition grown :: "nat \<Rightarrow> heap \<Rightarrow> heap \<Rightarrow> bool" where
  "grown lo h h1 \<longleftrightarrow> (\<exists>new. h1 = h @ new \<and> list_all (\<lambda>ob. list_all (fresh_from lo) (vals_of ob)) new)"

definition val_in :: "heap \<Rightarrow> pval \<Rightarrow> bool" where
  "val_in h v = (case v of PRef a \<Rightarrow> a < length h | _ \<Rightarrow> True)"

definition heap_closed :: "heap \<Rightarrow> bool" where
  "heap_closed h = list_all (\<lambda>ob. list_all (val_in h) (vals_of ob)) h"

lemma grown_refl: "grown lo h h"
  by (simp add: grown_def)

lemma grown_length: "grown lo h h1 \<Longrightarrow> length h \<le> length h1"
  by (auto simp: grown_def)

lemma grown_take: "grown lo h h1 \<Longrightarrow> take (length h) h1 = h"
  by (auto simp: grown_def)

lemma grown_trans: "grown lo h h1 \<Longrightarrow> grown lo h1 h2 \<Longrightarrow> grown lo h h2"
  by (auto simp: grown_def)

lemma fresh_from_mono: "lo \<le> lo' \<Longrightarrow> fresh_from lo' v \<Longrightarrow> fresh_from lo v"
  by (auto simp: fresh_from_def split: pval.splits)

lemma grown_mono: "lo \<le> lo' \<Longrightarrow> grown lo' h h1 \<Longrightarrow> grown lo h h1"
  by (auto simp: grown_def list_all_iff intro: fresh_from_mono)

lemma grown_alloc:
  "grown lo h h1 \<Longrightarrow> list_all (fresh_from lo) (vals_of ob) \<Longrightarrow> grown lo h (h1 @ [ob])"
  by (auto simp: grown_def)

lemma grown_new_object:
  assumes "grown lo h h1" and "length h \<le> a" and "a < length h1"
  shows "list_all (fresh_from lo) (vals_of (h1 ! a))"
proof -
  from assms(1) obtain new where n: "h1 = h @ new"
    and f: "list_all (\<lambda>ob. list_all (fresh_from lo) (vals_of ob)) new"
    by (auto simp: grown_def)
  from n assms(2,3) have "h1 ! a = new ! (a - length h)" "a - length h < length new"
    by (auto simp: nth_append)
  with f show ?thesis by (simp add: list_all_length)
qed

lemma map_heap_fresh:
  assumes f: "\<And>h' x h'' y. f h' x = Some (h'', y) \<Longrightarrow> grown (length h') h' h'' \<and> fresh_from (length h') (g y)"
  shows "map_heap f h xs = Some (h1, ys) \<Longrightarrow>
    grown (length h) h h1 \<and> list_all (\<lambda>y. fresh_from (length h) (g y)) ys"
proof (induction xs arbitrary: h h1 ys)
  case Nil
  then show ?case by (simp add: grown_refl)
next
  case (Cons x xs)
  from Cons.prems obtain ha y ys' where a: "f h x = Some (ha, y)"
    and b: "map_heap f ha xs = Some (h1, ys')" and c: "ys = y # ys'"
    by (auto split: option.splits)
  from f [OF a] have 1: "grown (length h) h ha" "fresh_from (length h) (g y)" by simp_all
  from Cons.IH [OF b] have 2: "grown (length ha) ha h1"
    "list_all (\<lambda>y. fresh_from (length ha) (g y)) ys'" by simp_all
  from 1(1) have le: "length h \<le> length ha" by (rule grown_length)
  from le 2(1) have "grown (length h) ha h1" by (rule grown_mono)
  with 1(1) have "grown (length h) h h1" by (rule grown_trans)
  moreover from le 2(2) have "list_all (\<lambda>y. fresh_from (length h) (g y)) ys'"
    by (auto simp: list_all_iff intro: fresh_from_mono)
  ultimately show ?case using 1(2) c by simp
qed

lemma clean_dict_heap_fresh:
  "clean_dict_heap n h d = Some (h1, v) \<Longrightarrow> grown (length h) h h1 \<and> fresh_from (length h) v"
proof (induction n arbitrary: h d h1 v)
  case 0
  then show ?case by simp
next
  case (Suc n)
  show ?case
  proof (cases d)
    case (PRef a)
    with Suc.prems have a: "a < length h" by (auto split: if_splits)
    show ?thesis
    proof (cases "h ! a")
      case (PList xs)
      with Suc.prems PRef a obtain hm xs' where m: "map_heap (clean_dict_heap n) h xs = Some (hm, xs')"
        and r: "h1 = hm @ [PList xs']" "v = PRef (length hm)"
        by (auto split: option.splits)
      have "grown (length h) h hm \<and> list_all (\<lambda>y. fresh_from (length h) (id y)) xs'"
        using m by (rule map_heap_fresh [rotated]) (simp add: Suc.IH)
      then have e: "grown (length h) h hm" and l: "list_all (fresh_from (length h)) xs'" by simp_all
      from e l have "grown (length h) h (hm @ [PList xs'])" by (simp add: grown_alloc)
      moreover from e have "length h \<le> length hm" by (rule grown_length)
      ultimately show ?thesis using r by (simp add: fresh_from_def)
    next
      case (PDict kvs)
      with Suc.prems PRef a obtain hm kvs' where
        m: "map_heap (on_item (clean_dict_heap n)) h kvs = Some (hm, kvs')"
        and r: "h1 = hm @ [PDict kvs']" "v = PRef (length hm)"
        by (auto split: option.splits)
      have "grown (length h) h hm \<and> list_all (\<lambda>y. fresh_from (length h) (snd y)) kvs'"
        using m
      proof (rule map_heap_fresh [rotated])
        fix h' x h'' y
        assume "on_item (clean_dict_heap n) h' x = Some (h'', y)"
        then obtain w where "clean_dict_heap n h' (snd x) = Some (h'', w)" "y = (fst x, w)"
          by (auto simp: on_item_def split: option.splits)
        with Suc.IH show "grown (length h') h' h'' \<and> fresh_from (length h') (snd y)" by simp
      qed
      then have e: "grown (length h) h hm" and l: "list_all (fresh_from (length h)) (map snd kvs')"
        by (simp_all add: list_all_iff)
      from e l have "grown (length h) h (hm @ [PDict kvs'])" by (simp add: grown_alloc)
      moreover from e have "length h \<le> length hm" by (rule grown_length)
      ultimately show ?thesis using r by (simp add: fresh_from_def)
    qed
  qed (use Suc.prems in \<open>auto simp: grown_refl fresh_from_def\<close>)
qed

lemma seq_index_mem: "seq_index xs i = Inr x \<Longrightarrow> x \<in> set xs"
  by (auto simp: seq_index_def split: if_splits)

lemma getitem_heap_above:
  assumes "grown (length h) h h1" and "fresh_from (length h) v" and "getitem_heap h1 v k = Inr w"
  shows "fresh_from (length h) w"
proof -
  from assms(3) obtain a kvs where v: "v = PRef a" and a: "a < length h1"
    and o: "h1 ! a = PDict kvs" and w: "map_of kvs k = Some w"
    by (cases v) (auto split: if_splits pobj.splits option.splits)
  from assms(2) v have le: "length h \<le> a" by (simp add: fresh_from_def)
  from assms(1) le a have "list_all (fresh_from (length h)) (vals_of (h1 ! a))"
    by (rule grown_new_object)
  moreover from w have "w \<in> set (map snd kvs)" by (force dest: map_of_SomeD)
  ultimately show ?thesis using o by (auto simp: list_all_iff)
qed

lemma getindex_heap_above:
  assumes "grown (length h) h h1" and "fresh_from (length h) v" and "getindex_heap h1 v i = Inr w"
  shows "fresh_from (length h) w"
proof (cases v)
  case (PRef a)
  with assms(3) obtain xs where a: "a < length h1"
    and o: "h1 ! a = PList xs" and w: "seq_index xs i = Inr w"
    by (auto split: if_splits pobj.splits)
  from assms(2) PRef have le: "length h \<le> a" by (simp add: fresh_from_def)
  from assms(1) le a have "list_all (fresh_from (length h)) (vals_of (h1 ! a))"
    by (rule grown_new_object)
  with o seq_index_mem [OF w] show ?thesis by (simp add: list_all_iff)
next
  case (PStr s)
  with assms(3) show ?thesis by (auto simp: and_then_Inr fresh_from_def)
qed (use assms(3) in auto)

lemma getpath_heap_above:
  "grown (length h) h h1 \<Longrightarrow> fresh_from (length h) v \<Longrightarrow> getpath_heap h1 v ks = Inr w \<Longrightarrow>
   fresh_from (length h) w"
proof (induction ks arbitrary: v)
  case Nil
  then show ?case by simp
next
  case (Cons k ks)
  from Cons.prems(3) obtain u where u: "getitem_heap h1 v k = Inr u"
    and r: "getpath_heap h1 u ks = Inr w"
    by (auto simp: and_then_Inr)
  from Cons.prems(1,2) u have "fresh_from (length h) u" by (rule getitem_heap_above)
  with Cons.prems(1) show ?case using r by (rule Cons.IH)
qed

lemma list_append_heap_frame:
  assumes "list_append_heap h1 ring x = Inr h2" and "fresh_from lo ring"
  shows "take lo h2 = take lo h1"
proof -
  from assms(1) obtain a xs where "ring = PRef a" "h2 = h1[a := PList (xs @ [x])]"
    by (cases ring) (auto split: if_splits pobj.splits)
  with assms(2) show ?thesis by (simp add: fresh_from_def)
qed

lemma wkt_heap_frame:
  assumes "grown (length h) h h1" and "fresh_from (length h) tweet"
  shows "take (length h) (wkt_heap n h1 tweet) = h"
proof (cases "point_heap h1 tweet")
  case (Inr u)
  with assms(1) show ?thesis by (simp add: wkt_heap_def grown_take)
next
  case (Inl e)
  show ?thesis
  proof (cases "close_ring_heap n h1 tweet")
    case (Inl e')
    with \<open>point_heap h1 tweet = Inl e\<close> assms(1) show ?thesis
      by (simp add: wkt_heap_def grown_take)
  next
    case (Inr h2)
    then obtain cs ring first final ne where
      cs: "getpath_heap h1 tweet [''place'', ''bounding_box'', ''coordinates''] = Inr cs"
      and ring: "getindex_heap h1 cs 0 = Inr ring"
      and r: "(if ne then list_append_heap h1 ring first else Inr h1) = Inr h2"
      unfolding close_ring_heap_def and_then_Inr by blast
    from assms cs have "fresh_from (length h) cs" by (rule getpath_heap_above)
    with assms(1) have "fresh_from (length h) ring" using ring by (rule getindex_heap_above)
    with r have "take (length h) h2 = take (length h) h1"
      by (auto split: if_splits dest: list_append_heap_frame)
    with assms(1) Inr \<open>point_heap h1 tweet = Inl e\<close> show ?thesis
      by (simp add: wkt_heap_def grown_take)
  qed
qed

lemma insert_tweet_heap_frame:
  "take (length h) (insert_tweet_heap n loaded user_raises h tweet) = h"
proof (cases "clean_dict_heap n h tweet")
  case None
  then show ?thesis by (simp add: insert_tweet_heap_def)
next
  case (Some r)
  obtain h1 tweet1 where r: "r = (h1, tweet1)" by (cases r)
  from Some r have g: "grown (length h) h h1" and f: "fresh_from (length h) tweet1"
    by (simp_all add: clean_dict_heap_fresh)
  from g have 1: "take (length h) h1 = h" by (rule grown_take)
  from g f have 2: "take (length h) (wkt_heap n h1 tweet1) = h" by (rule wkt_heap_frame)
  from Some r 1 2 show ?thesis by (simp add: insert_tweet_heap_def)
qed

lemma reify_frame:
  assumes "heap_closed h" and "take (length h) h2 = h"
  shows "val_in h v \<Longrightarrow> reify m h2 v = reify m h v"
proof (induction m arbitrary: v)
  case 0
  then show ?case by simp
next
  case (Suc m)
  show ?case
  proof (cases v)
    case (PRef a)
    with Suc.prems have a: "a < length h" by (simp add: val_in_def)
    from assms(2) have le: "length h \<le> length h2"
      by (metis length_take min.cobounded2 min_def nat_le_linear)
    from a assms(2) have eq: "h2 ! a = h ! a" by (metis nth_take)
    from assms(1) a have c: "list_all (val_in h) (vals_of (h ! a))"
      by (simp add: heap_closed_def list_all_length)
    show ?thesis
    proof (cases "h ! a")
      case (PList xs)
      with c have "map (reify m h2) xs = map (reify m h) xs"
        by (intro map_cong) (auto simp: list_all_iff Suc.IH)
      then have "those (map (reify m h2) xs) = those (map (reify m h) xs)"
        by (rule arg_cong)
      with PRef PList a le eq show ?thesis by simp
    next
      case (PDict kvs)
      with c have "map (\<lambda>kv. map_option (Pair (fst kv)) (reify m h2 (snd kv))) kvs
          = map (\<lambda>kv. map_option (Pair (fst kv)) (reify m h (snd kv))) kvs"
        by (intro map_cong) (auto simp: list_all_iff Suc.IH)
      then have "those (map (\<lambda>kv. map_option (Pair (fst kv)) (reify m h2 (snd kv))) kvs)
          = those (map (\<lambda>kv. map_option (Pair (fst kv)) (reify m h (snd kv))) kvs)"
        by (rule arg_cong)
      with PRef PDict a le eq show ?thesis by simp
    qed
  qed simp_all
qed

lemma those_map_Some:
  "those (map f xs) = Some ys \<longleftrightarrow> length ys = length xs \<and> (\<forall>i < length xs. f (xs ! i) = Some (ys ! i))"
proof (induction xs arbitrary: ys)
  case Nil
  then show ?case by auto
next
  case (Cons x xs)
  show ?case
  proof (cases "f x")
    case None
    then show ?thesis by (auto intro: exI [of _ 0])
  next
    case (Some y)
    show ?thesis
    proof (cases ys)
      case Nil
      with Some show ?thesis by (auto split: option.splits)
    next
      case (Cons z zs)
      with Some Cons.IH [of zs] show ?thesis
        by (auto simp: nth_Cons split: option.splits nat.splits) 
    qed
  qed
qed

lemma reify_grow: "reify m h v = Some j \<Longrightarrow> reify m (h @ new) v = Some j"
proof (induction m arbitrary: v j)
  case 0
  then show ?case by simp
next
  case (Suc m)
  show ?case
  proof (cases v)
    case (PRef a)
    with Suc.prems have a: "a < length h" by (auto split: if_splits)
    then have eq: "(h @ new) ! a = h ! a" by (simp add: nth_append)
    show ?thesis
    proof (cases "h ! a")
      case (PList xs)
      with Suc.prems PRef a obtain js where js: "those (map (reify m h) xs) = Some js"
        and j: "j = JList js" by auto
      from js have "those (map (reify m (h @ new)) xs) = Some js"
        unfolding those_map_Some using Suc.IH by auto
      with PRef PList a eq j show ?thesis by simp
    next
      case (PDict kvs)
      with Suc.prems PRef a obtain js where
        js: "those (map (\<lambda>kv. map_option (Pair (fst kv)) (reify m h (snd kv))) kvs) = Some js"
        and j: "j = JDict js" by auto
      from js have "those (map (\<lambda>kv. map_option (Pair (fst kv)) (reify m (h @ new) (snd kv))) kvs)
          = Some js"
        unfolding those_map_Some using Suc.IH by fastforce
      with PRef PDict a eq j show ?thesis by simp
    qed
  qed (use Suc.prems in auto)
qed

lemma map_heap_grow:
  assumes "\<And>h' x h'' y. f h' x = Some (h'', y) \<Longrightarrow> \<exists>new. h'' = h' @ new"
  shows "map_heap f h xs = Some (hm, ys) \<Longrightarrow> \<exists>new. hm = h @ new"
proof (induction xs arbitrary: h ys)
  case Nil
  then show ?case by simp
next
  case (Cons x xs)
  from Cons.prems obtain ha y ys' where a: "f h x = Some (ha, y)"
    and b: "map_heap f ha xs = Some (hm, ys')"
    by (auto split: option.splits)
  from assms [OF a] obtain n1 where "ha = h @ n1" ..
  moreover from Cons.IH [OF b] obtain n2 where "hm = ha @ n2" ..
  ultimately show ?case by simp
qed

lemma map_heap_value:
  assumes step: "\<And>h' x h'' y j. f h' x = Some (h'', y) \<Longrightarrow> rd h' x = Some j \<Longrightarrow>
        rd' h'' y = Some (c j)"
    and grow: "\<And>h' x h'' y. f h' x = Some (h'', y) \<Longrightarrow> \<exists>new. h'' = h' @ new"
    and rd: "\<And>h' x j new. rd h' x = Some j \<Longrightarrow> rd (h' @ new) x = Some j"
    and rd': "\<And>h' y j new. rd' h' y = Some j \<Longrightarrow> rd' (h' @ new) y = Some j"
  shows "map_heap f h xs = Some (hm, ys) \<Longrightarrow> those (map (rd h) xs) = Some js \<Longrightarrow>
    those (map (rd' hm) ys) = Some (map c js)"
proof (induction xs arbitrary: h ys js)
  case Nil
  then show ?case by auto
next
  case (Cons x xs)
  from Cons.prems(1) obtain ha y ys' where a: "f h x = Some (ha, y)"
    and b: "map_heap f ha xs = Some (hm, ys')" and ys: "ys = y # ys'"
    by (auto split: option.splits)
  from Cons.prems(2) obtain j js' where j: "rd h x = Some j"
    and js': "those (map (rd h) xs) = Some js'" and js: "js = j # js'"
    by (auto split: option.splits)
  from grow [OF a] obtain n1 where n1: "ha = h @ n1" ..
  have "\<exists>new. hm = ha @ new" using b by (rule map_heap_grow [rotated]) (rule grow)
  then obtain n2 where n2: "hm = ha @ n2" ..
  from js' have "those (map (rd ha) xs) = Some js'"
    unfolding those_map_Some n1 using rd by auto
  with b have t: "those (map (rd' hm) ys') = Some (map c js')" by (rule Cons.IH)
  from step [OF a j] have "rd' hm y = Some (c j)" unfolding n2 by (rule rd')
  with t ys js show ?case by simp
qed

lemma clean_dict_heap_grow:
  "clean_dict_heap n h v = Some (h1, v1) \<Longrightarrow> \<exists>new. h1 = h @ new"
  using clean_dict_heap_fresh [of n h v h1 v1] by (auto simp: grown_def)

lemma clean_dict_heap_value:
  "clean_dict_heap n h v = Some (h1, v1) \<Longrightarrow> reify m h v = Some j \<Longrightarrow>
   reify m h1 v1 = Some (without_nulls j)"
proof (induction n arbitrary: h v h1 v1 m j)
  case 0
  then show ?case by simp
next
  case (Suc n)
  from Suc.prems(2) obtain m' where m: "m = Suc m'" by (cases m) auto
  show ?case
  proof (cases v)
    case (PRef a)
    with Suc.prems(1) have a: "a < length h" by (auto split: if_splits)
    show ?thesis
    proof (cases "h ! a")
      case (PList xs)
      with Suc.prems(1) PRef a obtain hm xs' where
        mh: "map_heap (clean_dict_heap n) h xs = Some (hm, xs')"
        and r: "h1 = hm @ [PList xs']" "v1 = PRef (length hm)"
        by (auto split: option.splits)
      from Suc.prems(2) PRef PList a m obtain js where
        js: "those (map (reify m' h) xs) = Some js" and j: "j = JList js"
        by auto
      have "those (map (reify m' hm) xs') = Some (map without_nulls js)"
        using mh js
        by (rule map_heap_value [rotated -2])
           (auto intro: Suc.IH clean_dict_heap_grow reify_grow)
      then have "those (map (reify m' (hm @ [PList xs'])) xs') = Some (map without_nulls js)"
        unfolding those_map_Some by (auto intro: reify_grow)
      with r j m show ?thesis by simp
    next
      case (PDict kvs)
      let ?rd = "\<lambda>h kv. map_option (Pair (fst kv)) (reify m' h (snd kv))"
      from Suc.prems(1) PRef PDict a obtain hm kvs' where
        mh: "map_heap (on_item (clean_dict_heap n)) h kvs = Some (hm, kvs')"
        and r: "h1 = hm @ [PDict kvs']" "v1 = PRef (length hm)"
        by (auto split: option.splits)
      from Suc.prems(2) PRef PDict a m obtain js where
        js: "those (map (?rd h) kvs) = Some js" and j: "j = JDict js"
        by auto
      have "those (map (?rd hm) kvs') = Some (map (map_prod id without_nulls) js)"
        using mh js
      proof (rule map_heap_value [rotated -2])
        fix h' x h'' y j
        assume "on_item (clean_dict_heap n) h' x = Some (h'', y)" and "?rd h' x = Some j"
        then show "?rd h'' y = Some (map_prod id without_nulls j)"
          by (auto simp: on_item_def split: option.splits dest: Suc.IH)
      next
        fix h' x h'' y
        assume "on_item (clean_dict_heap n) h' x = Some (h'', y)"
        then show "\<exists>new. h'' = h' @ new"
          by (auto simp: on_item_def split: option.splits dest: clean_dict_heap_grow)
      qed (auto intro: reify_grow)
      moreover have g: "?rd (h' @ new) kv = Some p" if "?rd h' kv = Some p" for h' kv p new
        using that by (auto intro: reify_grow)
      ultimately have "those (map (?rd (hm @ [PDict kvs'])) kvs')
          = Some (map (map_prod id without_nulls) js)"
        unfolding those_map_Some by (intro conjI allI impI g) auto
      with r j m show ?thesis by simp
    qed
  qed (use Suc.prems m in \<open>auto simp: str_replace_char_delete\<close>)
qed

lemma map_heap_elements:
  assumes step: "\<And>h' x h'' y j. f h' x = Some (h'', y) \<Longrightarrow> rd h' x = Some j \<Longrightarrow> Q j"
    and grow: "\<And>h' x h'' y. f h' x = Some (h'', y) \<Longrightarrow> \<exists>new. h'' = h' @ new"
    and rd: "\<And>h' x j new. rd h' x = Some j \<Longrightarrow> rd (h' @ new) x = Some j"
  shows "map_heap f h xs = Some (hm, ys) \<Longrightarrow> those (map (rd h) xs) = Some js \<Longrightarrow>
    \<forall>j \<in> set js. Q j"
proof (induction xs arbitrary: h ys js)
  case Nil
  then show ?case by auto
next
  case (Cons x xs)
  from Cons.prems(1) obtain ha y ys' where a: "f h x = Some (ha, y)"
    and b: "map_heap f ha xs = Some (hm, ys')"
    by (auto split: option.splits)
  from Cons.prems(2) obtain j js' where j: "rd h x = Some j"
    and js': "those (map (rd h) xs) = Some js'" and js: "js = j # js'"
    by (auto split: option.splits)
  from grow [OF a] obtain n1 where n1: "ha = h @ n1" ..
  from js' have "those (map (rd ha) xs) = Some js'"
    unfolding those_map_Some n1 using rd by auto
  with b have "\<forall>j \<in> set js'. Q j" by (rule Cons.IH)
  moreover from a j have "Q j" by (rule step)
  ultimately show ?case using js by simp
qed

lemma clean_dict_heap_depth:
  "clean_dict_heap n h v = Some (h1, v1) \<Longrightarrow> reify m h v = Some j \<Longrightarrow> depth j \<le> n"
proof (induction n arbitrary: h v h1 v1 m j)
  case 0
  then show ?case by simp
next
  case (Suc n)
  from Suc.prems(2) obtain m' where m: "m = Suc m'" by (cases m) auto
  show ?case
  proof (cases v)
    case (PRef a)
    with Suc.prems(1) have a: "a < length h" by (auto split: if_splits)
    show ?thesis
    proof (cases "h ! a")
      case (PList xs)
      with Suc.prems(1) PRef a obtain hm xs' where
        mh: "map_heap (clean_dict_heap n) h xs = Some (hm, xs')"
        by (auto split: option.splits)
      from Suc.prems(2) PRef PList a m obtain js where
        js: "those (map (reify m' h) xs) = Some js" and j: "j = JList js"
        by auto
      have "\<forall>x \<in> set js. depth x \<le> n"
        using mh js
        by (rule map_heap_elements [rotated -2])
           (auto intro: Suc.IH clean_dict_heap_grow reify_grow)
      with j show ?thesis by (simp add: foldr_max_le)
    next
      case (PDict kvs)
      let ?rd = "\<lambda>h kv. map_option (Pair (fst kv)) (reify m' h (snd kv))"
      from Suc.prems(1) PRef PDict a obtain hm kvs' where
        mh: "map_heap (on_item (clean_dict_heap n)) h kvs = Some (hm, kvs')"
        by (auto split: option.splits)
      from Suc.prems(2) PRef PDict a m obtain js where
        js: "those (map (?rd h) kvs) = Some js" and j: "j = JDict js"
        by auto
      have "\<forall>p \<in> set js. depth (snd p) \<le> n"
        using mh js
      proof (rule map_heap_elements [rotated -2])
        fix h' x h'' y p
        assume "on_item (clean_dict_heap n) h' x = Some (h'', y)" and "?rd h' x = Some p"
        then show "depth (snd p) \<le> n"
          by (auto simp: on_item_def split: option.splits dest: Suc.IH)
      next
        fix h' x h'' y
        assume "on_item (clean_dict_heap n) h' x = Some (h'', y)"
        then show "\<exists>new. h'' = h' @ new"
          by (auto simp: on_item_def split: option.splits dest: clean_dict_heap_grow)
      qed (auto intro: reify_grow)
      with j show ?thesis by (simp add: foldr_max_le)
    qed
  qed (use Suc.prems m in auto)
qed

text \<open>
  Claim C10. Whatever the store decides, every object that exists when
  \<open>insert_tweet\<close> is called is the same afterwards, so the record the caller passed
  in denotes the same value as before. The sanitizer returns a fresh copy: its result
  is immutable or a new object, and it denotes the value that \<open>clean_dict\<close> returns
  for the value of the record; the ring that is closed in place is reached from that
  copy.
\<close>

theorem insert_tweet_keeps_callers_record:
  "take (length h) (insert_tweet_heap n loaded user_raises h tweet) = h
   \<and> (heap_closed h \<and> val_in h tweet \<longrightarrow>
        reify m (insert_tweet_heap n loaded user_raises h tweet) tweet = reify m h tweet)
   \<and> (clean_dict_heap n h tweet = Some (h1, tweet1) \<and> reify m h tweet = Some j \<longrightarrow>
        fresh_from (length h) tweet1
        \<and> (\<exists>r. clean_dict n j = Inr r \<and> reify m h1 tweet1 = Some r))"
proof (intro conjI impI)
  show "take (length h) (insert_tweet_heap n loaded user_raises h tweet) = h"
    by (rule insert_tweet_heap_frame)
  then show "reify m (insert_tweet_heap n loaded user_raises h tweet) tweet = reify m h tweet"
    if "heap_closed h \<and> val_in h tweet"
    using that by (simp add: reify_frame)
next
  assume a: "clean_dict_heap n h tweet = Some (h1, tweet1) \<and> reify m h tweet = Some j"
  then show "fresh_from (length h) tweet1"
    using clean_dict_heap_fresh [of n h tweet h1 tweet1] by simp
  from a have "depth j \<le> n"
    using clean_dict_heap_depth [of n h tweet h1 tweet1 m j] by simp
  then have "clean_dict n j = Inr (without_nulls j)" by (simp add: clean_dict_depth)
  moreover from a have "reify m h1 tweet1 = Some (without_nulls j)"
    using clean_dict_heap_value [of n h tweet h1 tweet1 m j] by simp
  ultimately show "\<exists>r. clean_dict n j = Inr r \<and> reify m h1 tweet1 = Some r" by blast
qed

text \<open>
  A heap with a record whose bounding box has an open ring of two vertices (objects 0
  to 6; the record is object 6). After \<open>insert_tweet\<close> the copy's ring (object 9) is
  closed and the caller's ring (object 2) is as it was.
\<close>

theorem insert_tweet_keeps_callers_record_witness:
  "heap_closed example_heap \<and> val_in example_heap (PRef 6)
   \<and> clean_dict_heap 10 example_heap (PRef 6)
       = Some (fst (the (clean_dict_heap 10 example_heap (PRef 6))), PRef 13)
   \<and> insert_tweet_heap 10 False False example_heap (PRef 6) ! 9 = PList [PRef 7, PRef 8, PRef 7]
   \<and> insert_tweet_heap 10 False False example_heap (PRef 6) ! 2 = PList [PRef 0, PRef 1]
   \<and> take 7 (insert_tweet_heap 10 False False example_heap (PRef 6)) = example_heap
   \<and> reify 10 (insert_tweet_heap 10 False False example_heap (PRef 6)) (PRef 6)
       = reify 10 example_heap (PRef 6)
   \<and> Inr (the (reify 10 (fst (the (clean_dict_heap 10 example_heap (PRef 6)))) (PRef 13)))
       = clean_dict 10 (the (reify 10 example_heap (PRef 6)))"
proof -
  let ?h1 = "fst (the (clean_dict_heap 10 example_heap (PRef 6)))"
  let ?j = "the (reify 10 example_heap (PRef 6))"
  have c: "heap_closed example_heap \<and> val_in example_heap (PRef 6)" by code_simp
  have l: "length example_heap = 7" by code_simp
  have k: "clean_dict_heap 10 example_heap (PRef 6) = Some (?h1, PRef 13)" by code_simp
  have r: "reify 10 example_heap (PRef 6) = Some ?j" by code_simp
  have e: "insert_tweet_heap 10 False False example_heap (PRef 6) ! 9
        = PList [PRef 7, PRef 8, PRef 7]"
    "insert_tweet_heap 10 False False example_heap (PRef 6) ! 2 = PList [PRef 0, PRef 1]"
    by code_simp+
  from insert_tweet_keeps_callers_record
    [of example_heap 10 False False "PRef 6" 10 ?h1 "PRef 13" ?j] c l k r
  have "take 7 (insert_tweet_heap 10 False False example_heap (PRef 6)) = example_heap
      \<and> reify 10 (insert_tweet_heap 10 False False example_heap (PRef 6)) (PRef 6)
          = reify 10 example_heap (PRef 6)
      \<and> (\<exists>r. clean_dict 10 ?j = Inr r \<and> reify 10 ?h1 (PRef 13) = Some r)"
    by simp
  then have "take 7 (insert_tweet_heap 10 False False example_heap (PRef 6)) = example_heap
      \<and> reify 10 (insert_tweet_heap 10 False False example_heap (PRef 6)) (PRef 6)
          = reify 10 example_heap (PRef 6)
      \<and> Inr (the (reify 10 ?h1 (PRef 13))) = clean_dict 10 ?j"
    by auto
  with c k e show ?thesis by blast
qed

text \<open>
  On the caller's own record, without the copy, the location block does write the
  caller's ring.
\<close>

lemma ring_closing_without_copy:
  "wkt_heap 10 example_heap (PRef 6) ! 2 = PList [PRef 0, PRef 1, PRef 0]"
  by code_simp

end
